theory Spec2Isabelle
  imports Main "HOL-Library.Word"
begin

unbundle bit_operations_syntax

section \<open>LZ8S: shared data model\<close>

text \<open>
  Bytes are 8-bit words. C \<open>int\<close> values are modelled as \<open>int\<close>: every quantity the
  programs compute stays far below \<open>2 ^ 31\<close> for inputs up to the 128 KiB read limit.
  Loop counters and array indices that never go negative are \<open>nat\<close>.
  The \<open>unsigned\<close> variables of the decoder wrap at \<open>2 ^ 32\<close>, written out below.
\<close>

type_synonym byte = "8 word"

text \<open>
  The tuning variables are process-wide globals in both programs
  (\<open>bits_moff\<close>, \<open>max_mlen\<close>, \<open>max_llen\<close>, \<open>zero_offset\<close>; \<open>offset_rel\<close> is a
  global of the decoder and a local of the encoder's \<open>main\<close>; \<open>exor_offset\<close> exists
  in the decoder only). \<open>offset_rel < 0\<close> means "absent".
\<close>

record cfg =
  bits_moff :: int
  max_mlen :: int
  max_llen :: int
  zero_offset :: bool
  offset_rel :: int
  exor_offset :: bool

definition default_cfg :: cfg where
  "default_cfg = \<lparr> bits_moff = 8, max_mlen = 255, max_llen = 255,
                   zero_offset = False, offset_rel = - 1, exor_offset = False \<rparr>"

text \<open>The option checks of both \<open>main\<close> functions (identical in the two programs).\<close>

definition check_options :: "cfg \<Rightarrow> bool" where
  "check_options c \<longleftrightarrow>
     \<not> (max_mlen c < 1 \<or> max_mlen c > 32895) \<and>
     \<not> (max_llen c < 1 \<or> max_llen c > 32895) \<and>
     \<not> (bits_moff c < 0 \<or> bits_moff c > 16) \<and>
     (if bits_moff c = 8 then \<not> offset_rel c > 0xFF
      else if bits_moff c = 16 then \<not> offset_rel c > 0xFFFF
      else \<not> offset_rel c \<ge> 0)"

section \<open>The decoder (lz8dec.c)\<close>

subsection \<open>Standard streams\<close>

datatype message =
    EofSecondByte      \<comment> \<open>"ERROR, end of file reading second byte of length"\<close>
  | ShortLiteral       \<comment> \<open>"ERROR, short file reading literal."\<close>
  | ShortOffset        \<comment> \<open>"ERROR, short file reading match offset."\<close>

record io =
  stdin :: "byte list"      \<comment> \<open>bytes not yet read\<close>
  stdout :: "byte list"     \<comment> \<open>bytes written so far\<close>
  stderr :: "message list"  \<comment> \<open>messages printed so far\<close>

definition EOF :: int where
  "EOF = - 1"

definition getchar :: "io \<Rightarrow> int \<times> io" where
  "getchar s = (case stdin s of
                  [] \<Rightarrow> (EOF, s)
                | c # rest \<Rightarrow> (uint c, s\<lparr>stdin := rest\<rparr>))"

text \<open>\<open>putchar\<close> converts its argument to \<open>unsigned char\<close>.\<close>

definition putchar :: "int \<Rightarrow> io \<Rightarrow> io" where
  "putchar x s = s\<lparr>stdout := stdout s @ [word_of_int x]\<rparr>"

definition eprint :: "message \<Rightarrow> io \<Rightarrow> io" where
  "eprint m s = s\<lparr>stderr := stderr s @ [m]\<rparr>"

subsection \<open>get_len\<close>

text \<open>
  The test after the second \<open>getchar\<close> is on \<open>c\<close>, as in the source, not on \<open>c2\<close>.
  \<open>c2 << 7\<close> is \<open>push_bit 7 c2\<close>; for \<open>c2 = EOF\<close> this is \<open>- 128\<close>.
\<close>

definition get_len :: "int \<Rightarrow> io \<Rightarrow> int \<times> io" where
  "get_len mx s =
     (let (c, s1) = getchar s in
      if c = EOF then (- 1, s1)
      else if mx < 256 \<or> c < 128 then (c, s1)
      else
        let (c2, s2) = getchar s1 in
        if c = EOF then (- 1, eprint EofSecondByte s2)
        else (c + push_bit 7 c2, s2))"

subsection \<open>decode\<close>

text \<open>
  \<open>buf\<close> is an uninitialised array of 65536 chars: its initial contents are a
  parameter of \<open>decode\<close>. \<open>pos\<close> is \<open>unsigned\<close>; \<open>off\<close> is an \<open>int\<close> that is only
  used through \<open>off & mask\<close>, so it is kept as its 32-bit pattern.
\<close>

type_synonym ring = "nat \<Rightarrow> byte"

definition dmask :: "cfg \<Rightarrow> nat" where
  "dmask c = (if bits_moff c > 8 then 0xFFFF else 0xFF)"

definition u32 :: "int \<Rightarrow> nat" where
  "u32 x = nat (x mod 2 ^ 32)"

text \<open>The value of an \<open>unsigned\<close> returned as \<open>int\<close>.\<close>

definition as_int :: "nat \<Rightarrow> int" where
  "as_int p = (if p < 2 ^ 31 then int p else int p - 2 ^ 32)"

text \<open>
  The literal copy loop. \<open>Inl\<close> is the \<open>return pos\<close> inside the loop,
  \<open>Inr\<close> the state after the loop.
\<close>

fun copy_literal :: "cfg \<Rightarrow> nat \<Rightarrow> ring \<Rightarrow> nat \<Rightarrow> io \<Rightarrow> (nat \<times> io) + (ring \<times> nat \<times> io)" where
  "copy_literal c 0 buf pos s = Inr (buf, pos, s)"
| "copy_literal c (Suc k) buf pos s =
     (let (x, s1) = getchar s in
      if EOF = x then Inl (pos, eprint ShortLiteral s1)
      else copy_literal c k (buf(pos AND dmask c := word_of_int x))
             (u32 (int pos + 1)) (putchar x s1))"

text \<open>Reading the match offset: up to two bytes, low byte first.\<close>

definition read_offset :: "cfg \<Rightarrow> nat \<Rightarrow> io \<Rightarrow> (nat \<times> io) + (int \<times> io)" where
  "read_offset c pos s =
     (case (if bits_moff c > 0
            then (let (off, s1) = getchar s in
                  if EOF = off then Inl (pos, eprint ShortOffset s1) else Inr (off, s1))
            else Inr (0, s)) of
        Inl r \<Rightarrow> Inl r
      | Inr (off, s1) \<Rightarrow>
          if bits_moff c > 8
          then (let (x, s2) = getchar s1 in
                if EOF = x then Inl (pos, eprint ShortOffset s2)
                else Inr (off + push_bit 8 x, s2))
          else Inr (off, s1))"

text \<open>The source index computed from the offset that was read.\<close>

definition match_source :: "cfg \<Rightarrow> nat \<Rightarrow> int \<Rightarrow> nat" where
  "match_source c pos off0 =
     (let off = (if exor_offset c then int (dmask c) XOR off0 else off0) in
      if offset_rel c < 0 then u32 (int pos - off + int (dmask c))
      else u32 (off + int (dmask c) + 1 - offset_rel c))"

fun copy_match :: "cfg \<Rightarrow> nat \<Rightarrow> ring \<Rightarrow> nat \<Rightarrow> nat \<Rightarrow> io \<Rightarrow> ring \<times> nat \<times> io" where
  "copy_match c 0 buf pos off s = (buf, pos, s)"
| "copy_match c (Suc k) buf pos off s =
     (let x = buf (off AND dmask c) in
      copy_match c k (buf(pos AND dmask c := x))
        (u32 (int pos + 1)) (u32 (int off + 1)) (putchar (uint x) s))"

text \<open>
  The \<open>while(1)\<close> loop of \<open>decode\<close>, in its two halves: \<open>decode\<close> is the top of the
  loop body ("Decode LITERAL"), \<open>decode_match\<close> the second half ("Decode MATCH"),
  which ends by going back to the top. The result is the returned \<open>pos\<close> and the
  final streams.
\<close>

function decode :: "cfg \<Rightarrow> ring \<Rightarrow> nat \<Rightarrow> io \<Rightarrow> nat \<times> io"
  and decode_match :: "cfg \<Rightarrow> ring \<Rightarrow> nat \<Rightarrow> io \<Rightarrow> nat \<times> io" where
  "decode c buf pos s =
     (case get_len (max_llen c) s of (n, s1) \<Rightarrow>
        if n < 0 then (pos, s1)
        else (case copy_literal c (nat n) buf pos s1 of
                Inl r \<Rightarrow> r
              | Inr (buf2, pos2, s2) \<Rightarrow> decode_match c buf2 pos2 s2))"
| "decode_match c buf pos s =
     (case get_len (max_mlen c) s of (n, s1) \<Rightarrow>
        if n < 0 then (pos, s1)
        else if zero_offset c \<or> n \<noteq> 0 then
          (case read_offset c pos s1 of
             Inl r \<Rightarrow> r
           | Inr (off, s2) \<Rightarrow>
               (case copy_match c (nat n) buf pos (match_source c pos off) s2 of
                  (buf3, pos3, s3) \<Rightarrow> decode c buf3 pos3 s3))
        else decode c buf pos s1)"
  by pat_completeness auto

text \<open>The decoder program: \<open>decode\<close> started at \<open>pos = 0\<close> on the given input.\<close>

definition lz8dec :: "cfg \<Rightarrow> ring \<Rightarrow> byte list \<Rightarrow> int \<times> io" where
  "lz8dec c buf0 input =
     (case decode c buf0 0 \<lparr>stdin = input, stdout = [], stderr = []\<rparr> of
        (pos, s) \<Rightarrow> (as_int pos, s))"


section \<open>The encoder (lz8s.c)\<close>

subsection \<open>Output buffer\<close>

text \<open>
  \<open>struct bf\<close> holds a fixed array \<open>buf[65536]\<close> and the fill count \<open>len\<close>;
  \<open>add_byte\<close> stores at \<open>buf[len]\<close> without a bound check and nothing flushes
  the buffer before the end of \<open>main\<close>. The buffer is modelled by the list of the
  \<open>len\<close> bytes stored so far; a store at index 65536 or beyond is outside the
  array and is the error \<open>BufferOverflow\<close>. The byte stored is the argument
  converted to \<open>uint8_t\<close>.
\<close>

datatype enc_error = UsageError | BufferOverflow

type_synonym bf = "byte list"

definition add_byte :: "bf \<Rightarrow> int \<Rightarrow> enc_error + bf" where
  "add_byte b x = (if length b < 65536 then Inr (b @ [word_of_int x]) else Inl BufferOverflow)"

definition ebind :: "enc_error + 'a \<Rightarrow> ('a \<Rightarrow> enc_error + 'b) \<Rightarrow> enc_error + 'b" where
  "ebind m f = (case m of Inl e \<Rightarrow> Inl e | Inr x \<Rightarrow> f x)"

subsection \<open>Cost model\<close>

definition INFINITE_COST :: int where
  "INFINITE_COST = 2147483647 div 256"

definition min_mlen :: int where
  "min_mlen = 1"

definition max_off :: "cfg \<Rightarrow> int" where
  "max_off c = push_bit (nat (bits_moff c)) 1"

definition mlen_cost :: "cfg \<Rightarrow> int \<Rightarrow> int" where
  "mlen_cost c l =
     (if l > max_mlen c then INFINITE_COST
      else if max_mlen c > 255 \<and> l > 127 then 16
      else 8)"

definition moff_cost :: "cfg \<Rightarrow> int \<Rightarrow> int" where
  "moff_cost c o' =
     (if o' > max_off c \<or> o' < 1 then INFINITE_COST
      else if bits_moff c = 0 then 0
      else if bits_moff c \<le> 8 then 8
      else 16)"

text \<open>The global \<open>zero_match_cost\<close>, as \<open>lzop_init\<close> sets it.\<close>

definition zero_match_cost :: "cfg \<Rightarrow> int" where
  "zero_match_cost c = mlen_cost c 0 + (if zero_offset c then moff_cost c 1 else 0)"

text \<open>
  The \<open>while\<close> loop of \<open>llen_cost\<close>. \<open>main\<close> exits unless \<open>1 \<le> max_llen\<close>, so the
  loop is only ever run with a positive \<open>max_llen\<close>; the extra conjunct
  \<open>0 < max_llen c\<close> only makes the model total outside that range.
\<close>

function llen_cost_loop :: "cfg \<Rightarrow> int \<Rightarrow> int \<Rightarrow> int \<times> int" where
  "llen_cost_loop c l bits =
     (if l > max_llen c \<and> 0 < max_llen c
      then llen_cost_loop c (l - max_llen c) (bits + (8 + zero_match_cost c))
      else (l, bits))"
  by pat_completeness auto

definition llen_cost :: "cfg \<Rightarrow> int \<Rightarrow> int" where
  "llen_cost c l =
     (if l = 0 then 0
      else (case llen_cost_loop c l 0 of (l1, bits) \<Rightarrow>
              8 + (if max_llen c > 255 \<and> l1 > 127 then bits + 8 else bits)))"

subsection \<open>Match finder\<close>

text \<open>
  \<open>get_mlen data a b mx i\<close> is the loop of \<open>get_mlen(data + a, data + b, mx)\<close>
  from index \<open>i\<close> on.
\<close>

function get_mlen :: "byte list \<Rightarrow> nat \<Rightarrow> nat \<Rightarrow> int \<Rightarrow> nat \<Rightarrow> int" where
  "get_mlen data a b mx i =
     (if int i < mx
      then (if data ! (a + i) \<noteq> data ! (b + i) then int i
            else get_mlen data a b mx (i + 1))
      else mx)"
  by pat_completeness auto

text \<open>The \<open>for\<close> loop of \<open>match\<close>; the result is \<open>(mlen, *mpos)\<close>.\<close>

function match_loop :: "byte list \<Rightarrow> nat \<Rightarrow> int \<Rightarrow> nat \<Rightarrow> int \<Rightarrow> int \<Rightarrow> int \<times> int" where
  "match_loop data pos mxlen i mlen mp =
     (if i < pos
      then (let ml = get_mlen data pos i mxlen 0 in
            if ml > mlen
            then (if ml \<ge> mxlen then (ml, int pos - int i)
                  else match_loop data pos mxlen (i + 1) ml (int pos - int i))
            else match_loop data pos mxlen (i + 1) mlen mp)
      else (mlen, mp))"
  by pat_completeness auto

definition match :: "cfg \<Rightarrow> byte list \<Rightarrow> nat \<Rightarrow> nat \<Rightarrow> int \<Rightarrow> int \<times> int" where
  "match c data pos sz mp =
     (let mxlen = - max (- max_mlen c) (int pos - int sz) in
      match_loop data pos mxlen (nat (max (int pos - max_off c) 0)) 0 mp)"

subsection \<open>Optimal parsing table\<close>

record lzop_st =
  lbits :: int
  llen :: int
  mbits :: int
  mlen :: int
  mpos :: int

text \<open>A cell as \<open>calloc\<close> leaves it.\<close>

definition zero_st :: lzop_st where
  "zero_st = \<lparr> lbits = 0, llen = 0, mbits = 0, mlen = 0, mpos = 0 \<rparr>"

text \<open>First loop of the body: LITERAL after this literal (\<open>i\<close> from 1 to 5).\<close>

function backfill_lit ::
  "cfg \<Rightarrow> lzop_st list \<Rightarrow> nat \<Rightarrow> nat \<Rightarrow> nat \<Rightarrow> int \<times> lzop_st \<Rightarrow> int \<times> lzop_st" where
  "backfill_lit c sp sz pos i (ml, cur) =
     (if i < 6
      then (if pos + i > sz then (ml, cur)
            else (let nxt = sp ! (pos + i);
                      ml1 = (if ml < llen nxt + int i then llen nxt + int i else ml);
                      lb = lbits nxt + 8 * int i - llen_cost c (llen nxt)
                             + llen_cost c (llen nxt + int i);
                      cur1 = (if lb < lbits cur
                              then cur\<lparr> lbits := lb, llen := llen nxt + int i \<rparr>
                              else cur)
                  in backfill_lit c sp sz pos (i + 1) (ml1, cur1)))
      else (ml, cur))"
  by pat_completeness auto

text \<open>Second loop: MATCH after \<open>i\<close> bytes of literal (\<open>i\<close> from 1 to \<open>ml - 1\<close>).\<close>

function backfill_litmatch ::
  "cfg \<Rightarrow> lzop_st list \<Rightarrow> nat \<Rightarrow> int \<Rightarrow> nat \<Rightarrow> lzop_st \<Rightarrow> lzop_st" where
  "backfill_litmatch c sp pos ml i cur =
     (if int i \<le> ml - 1
      then (let nxt = sp ! (pos + i);
                mb = mbits nxt + 8 * int i + llen_cost c (int i);
                cur1 = (if mb < lbits cur
                        then cur\<lparr> llen := int i, lbits := mb \<rparr>
                        else cur)
            in backfill_litmatch c sp pos ml (i + 1) cur1)
      else cur)"
  by pat_completeness auto

text \<open>Third loop: all match lengths \<open>l\<close> from \<open>min_mlen\<close> to \<open>ml\<close>.\<close>

function backfill_match ::
  "cfg \<Rightarrow> lzop_st list \<Rightarrow> nat \<Rightarrow> int \<Rightarrow> int \<Rightarrow> nat \<Rightarrow> int \<times> lzop_st \<Rightarrow> int \<times> lzop_st" where
  "backfill_match c sp pos mp ml l (bestm, cur) =
     (if int l \<le> ml
      then (let nxt = sp ! (pos + l);
                mb = mbits nxt + llen_cost c 1 + moff_cost c mp + mlen_cost c (int l);
                lb = lbits nxt + moff_cost c mp + mlen_cost c (int l);
                (bestm1, cur1) = (if lb \<le> bestm
                                  then (lb, cur\<lparr> mlen := int l, mbits := lb \<rparr>)
                                  else (bestm, cur));
                (bestm2, cur2) = (if mb \<le> bestm1
                                  then (mb, cur1\<lparr> mlen := int l, mbits := mb \<rparr>)
                                  else (bestm1, cur1))
            in backfill_match c sp pos mp ml (l + 1) (bestm2, cur2))
      else (bestm, cur))"
  by pat_completeness auto

text \<open>The body of the backward loop of \<open>lzop_backfill\<close> at position \<open>pos\<close>.\<close>

definition backfill_step :: "cfg \<Rightarrow> byte list \<Rightarrow> lzop_st list \<Rightarrow> nat \<Rightarrow> lzop_st" where
  "backfill_step c data sp pos =
     (let sz = length data;
          cur = (sp ! pos)\<lparr> lbits := INFINITE_COST, llen := 0 \<rparr>;
          (ml, cur1) = backfill_lit c sp sz pos 1 (0, cur);
          cur2 = backfill_litmatch c sp pos ml 1 cur1;
          (ml2, mp) = match c data pos sz 0;
          cur3 = cur2\<lparr> mbits := INFINITE_COST, mpos := mp \<rparr>
      in snd (backfill_match c sp pos mp ml2 (nat min_mlen) (INFINITE_COST, cur3)))"

text \<open>The backward loop: \<open>n\<close> is \<open>pos + 1\<close>, so it runs \<open>pos = n - 1, \<dots>, 0\<close>.\<close>

fun backfill_loop :: "cfg \<Rightarrow> byte list \<Rightarrow> nat \<Rightarrow> lzop_st list \<Rightarrow> lzop_st list" where
  "backfill_loop c data 0 sp = sp"
| "backfill_loop c data (Suc pos) sp =
     backfill_loop c data pos (sp[pos := backfill_step c data sp pos])"

text \<open>\<open>lzop_init\<close> allocates \<open>size + 1\<close> zeroed cells; \<open>lzop_backfill\<close> fills them.\<close>

definition lzop_backfill :: "cfg \<Rightarrow> byte list \<Rightarrow> lzop_st list" where
  "lzop_backfill c data =
     (let sz = length data; sp = replicate (sz + 1) zero_st in
      if sz = 0 then sp
      else backfill_loop c data sz
             (sp[sz := \<lparr> lbits = 0, llen = 0, mbits = INFINITE_COST, mlen = 0, mpos = 0 \<rparr>]))"

subsection \<open>Emitter\<close>

text \<open>
  \<open>code_match\<close> and \<open>lzop_encode\<close> without the statistics counters. The encoder
  state that matters is the output buffer \<open>b\<close> and the flag \<open>in_literal\<close>.
\<close>

definition code_match :: "cfg \<Rightarrow> bf \<Rightarrow> int \<Rightarrow> int \<Rightarrow> enc_error + bf" where
  "code_match c b len off =
     ebind (if len > 127 \<and> max_mlen c > 255
            then ebind (add_byte b ((0x80 OR len) AND 0xFF))
                   (\<lambda>b1. add_byte b1 (drop_bit 7 len - 1))
            else add_byte b (len AND 0xFF))
       (\<lambda>b2. if len \<noteq> 0 \<or> zero_offset c
              then ebind (if bits_moff c \<noteq> 0 then add_byte b2 (off AND 0xFF) else Inr b2)
                     (\<lambda>b3. if bits_moff c > 8 then add_byte b3 (drop_bit 8 off) else Inr b3)
              else Inr b2)"

definition lzop_encode ::
  "cfg \<Rightarrow> byte list \<Rightarrow> lzop_st list \<Rightarrow> bf \<times> bool \<Rightarrow> nat \<Rightarrow> int \<Rightarrow> enc_error + ((bf \<times> bool) \<times> int)" where
  "lzop_encode c data sp st pos lpos =
     (case st of (b, in_literal) \<Rightarrow>
      if int pos \<le> lpos
      then (if in_literal
            then ebind (add_byte b (uint (data ! pos))) (\<lambda>b1. Inr ((b1, in_literal), lpos))
            else Inr ((b, in_literal), lpos))
      else
        (let cur = sp ! pos;
             extra_cost = (if in_literal then zero_match_cost c else 0)
         in if lbits cur + extra_cost \<le> mbits cur
            then
              (let len = (if llen cur > max_llen c then max_llen c else llen cur) in
               ebind (if in_literal then code_match c b 0 0 else Inr b)
                 (\<lambda>b1. ebind (if max_llen c > 255 \<and> len > 127
                               then ebind (add_byte b1 ((0x80 OR len) AND 0xFF))
                                      (\<lambda>b2. add_byte b2 (drop_bit 7 len - 1))
                               else add_byte b1 (len AND 0xFF))
                   (\<lambda>b3. ebind (add_byte b3 (uint (data ! pos)))
                     (\<lambda>b4. Inr ((b4, True), int pos + len - 1)))))
            else
              (let mp0 = mpos cur;
                   ml = mlen cur;
                   mp = (if offset_rel c < 0 then (mp0 - 1) AND 0xFFFF
                         else (int pos + offset_rel c - mp0) AND 0xFFFF)
               in ebind (if \<not> in_literal then add_byte b 0 else Inr b)
                    (\<lambda>b1. ebind (code_match c b1 ml mp)
                      (\<lambda>b2. Inr ((b2, False), int pos + ml - 1))))))"

text \<open>The loop \<open>for(pos = 0; pos < sz; pos++)\<close> of \<open>main\<close>.\<close>

function encode_loop ::
  "cfg \<Rightarrow> byte list \<Rightarrow> lzop_st list \<Rightarrow> nat \<Rightarrow> (bf \<times> bool) \<times> int \<Rightarrow> enc_error + ((bf \<times> bool) \<times> int)" where
  "encode_loop c data sp pos st =
     (if pos < length data
      then ebind (lzop_encode c data sp (fst st) pos (snd st)) (encode_loop c data sp (pos + 1))
      else Inr st)"
  by pat_completeness auto

text \<open>
  \<open>main\<close>: the option checks, \<open>fread\<close> of at most 128 KiB into \<open>data\<close>, the table,
  the encode loop with \<open>lpos = - 1\<close> and \<open>in_literal = 0\<close>, and \<open>bflush\<close>, which
  writes the buffer to the output file.
\<close>

definition fread :: "nat \<Rightarrow> byte list \<Rightarrow> byte list" where
  "fread n input = take n input"

definition lz8s :: "cfg \<Rightarrow> byte list \<Rightarrow> enc_error + byte list" where
  "lz8s c input =
     (if \<not> check_options c then Inl UsageError
      else (let data = fread (128 * 1024) input;
                sp = lzop_backfill c data
            in ebind (encode_loop c data sp 0 (([], False), - 1))
                 (\<lambda>st. Inr (fst (fst st)))))"


section \<open>Wire format\<close>

text \<open>
  The fields of the wire format as the specification writes them: a length field is one
  byte when the limit is at most 255 or the value is below 128, and otherwise the two
  bytes \<open>0x80 | (x & 0x7F)\<close> and \<open>(x >> 7) - 1\<close>; an offset field is empty, one byte
  or two bytes (low byte first) according to \<open>bits_moff\<close>.
\<close>

definition len_field :: "int \<Rightarrow> int \<Rightarrow> byte list" where
  "len_field mx x =
     (if mx \<le> 255 \<or> x < 128 then [word_of_int x]
      else [word_of_int (0x80 OR (x AND 0x7F)), word_of_int (drop_bit 7 x - 1)])"

definition offset_field :: "cfg \<Rightarrow> int \<Rightarrow> byte list" where
  "offset_field c off =
     (if bits_moff c = 0 then []
      else if bits_moff c \<le> 8 then [word_of_int off]
      else [word_of_int off, word_of_int (drop_bit 8 off)])"

text \<open>What \<open>code_match\<close> appends to the buffer.\<close>

definition match_block :: "cfg \<Rightarrow> int \<Rightarrow> int \<Rightarrow> byte list" where
  "match_block c len off =
     len_field (max_mlen c) len @ (if len \<noteq> 0 \<or> zero_offset c then offset_field c off else [])"

section \<open>Specification of the match finder\<close>

text \<open>
  \<open>capped_prefix data p i cap r\<close>: \<open>r\<close> is the length of the longest common prefix of
  \<open>data[p..]\<close> and \<open>data[i..]\<close>, capped by \<open>cap\<close>.
\<close>

definition capped_prefix :: "byte list \<Rightarrow> nat \<Rightarrow> nat \<Rightarrow> int \<Rightarrow> int \<Rightarrow> bool" where
  "capped_prefix data p i cap r \<longleftrightarrow>
     0 \<le> r \<and> r \<le> cap \<and>
     (\<forall>k < nat r. data ! (p + k) = data ! (i + k)) \<and>
     (r < cap \<longrightarrow> data ! (p + nat r) \<noteq> data ! (i + nat r))"

text \<open>
  The cap on the match length at \<open>p\<close> and the first window position, in the
  specification's words: \<open>min(max_mlen, N - p)\<close> and \<open>max(p - max_off, 0)\<close>.
\<close>

definition match_cap :: "cfg \<Rightarrow> nat \<Rightarrow> nat \<Rightarrow> int" where
  "match_cap c n p = min (max_mlen c) (int n - int p)"

definition window_start :: "cfg \<Rightarrow> nat \<Rightarrow> nat" where
  "window_start c p = nat (max (int p - max_off c) 0)"

section \<open>Invariants used in the proofs\<close>

text \<open>
  \<open>ring_ok c data p buf\<close>: the decoder's ring buffer holds the last \<open>mask + 1\<close> bytes
  of \<open>data\<close> before position \<open>p\<close>.
\<close>

definition ring_ok :: "cfg \<Rightarrow> byte list \<Rightarrow> nat \<Rightarrow> ring \<Rightarrow> bool" where
  "ring_ok c data p buf \<longleftrightarrow>
     (\<forall>q < p. p - q \<le> dmask c + 1 \<longrightarrow> buf (q mod (dmask c + 1)) = data ! q)"

text \<open>
  A configuration shared by the two programs: it passes the option checks, and the
  decoder-only flag \<open>exor_offset\<close>, for which the encoder has no counterpart, is off.
\<close>

definition valid_cfg :: "cfg \<Rightarrow> bool" where
  "valid_cfg c \<longleftrightarrow> check_options c \<and> \<not> exor_offset c"

text \<open>The offset value \<open>lzop_encode\<close> passes to \<open>code_match\<close> for a match at distance \<open>mp\<close>.\<close>

definition enc_offset :: "cfg \<Rightarrow> nat \<Rightarrow> int \<Rightarrow> int" where
  "enc_offset c p mp =
     (if offset_rel c < 0 then (mp - 1) AND 0xFFFF
      else (int p + offset_rel c - mp) AND 0xFFFF)"

text \<open>The value \<open>read_offset\<close> gets back from an offset field.\<close>

definition dec_offset :: "cfg \<Rightarrow> int \<Rightarrow> int" where
  "dec_offset c e =
     (if bits_moff c = 0 then 0 else if bits_moff c \<le> 8 then e mod 256 else e mod 65536)"

section \<open>Block view of the stream\<close>

text \<open>
  A stream is a sequence of blocks. A literal block carries its bytes; a match block
  carries its length and the offset value written after it.
\<close>

datatype block = Literal "byte list" | Match int int

fun wire :: "cfg \<Rightarrow> block \<Rightarrow> byte list" where
  "wire c (Literal xs) = len_field (max_llen c) (int (length xs)) @ xs"
| "wire c (Match n e) = match_block c n e"

definition stream :: "cfg \<Rightarrow> block list \<Rightarrow> byte list" where
  "stream c bs = concat (map (wire c) bs)"

fun block_len :: "block \<Rightarrow> nat" where
  "block_len (Literal xs) = length xs"
| "block_len (Match n e) = nat n"

fun is_literal :: "block \<Rightarrow> bool" where
  "is_literal (Literal xs) = True"
| "is_literal (Match n e) = False"

text \<open>
  \<open>alternates il bs\<close>: the kinds of the blocks alternate, starting with a literal
  block when \<open>il\<close> is false and with a match block when \<open>il\<close> is true.
\<close>

fun alternates :: "bool \<Rightarrow> block list \<Rightarrow> bool" where
  "alternates il [] = True"
| "alternates il (b # bs) = (is_literal b = (\<not> il) \<and> alternates (is_literal b) bs)"

fun end_phase :: "bool \<Rightarrow> block list \<Rightarrow> bool" where
  "end_phase il [] = il"
| "end_phase il (b # bs) = end_phase (is_literal b) bs"

fun end_pos :: "nat \<Rightarrow> block list \<Rightarrow> nat" where
  "end_pos p [] = p"
| "end_pos p (b # bs) = end_pos (p + block_len b) bs"

text \<open>
  \<open>blocks_ok c data il p bs\<close>: the blocks \<open>bs\<close> describe \<open>data\<close> from position \<open>p\<close> on,
  within the configured limits: each literal block holds the next bytes of \<open>data\<close>,
  each match block of positive length repeats bytes that lie \<open>d\<close> positions back,
  for a distance \<open>d\<close> within the window whose encoding is the offset written.
\<close>

fun blocks_ok :: "cfg \<Rightarrow> byte list \<Rightarrow> bool \<Rightarrow> nat \<Rightarrow> block list \<Rightarrow> bool" where
  "blocks_ok c data il p [] = True"
| "blocks_ok c data il p (Literal xs # bs) =
     (\<not> il \<and> int (length xs) \<le> max_llen c \<and> p + length xs \<le> length data \<and>
      xs = take (length xs) (drop p data) \<and>
      blocks_ok c data True (p + length xs) bs)"
| "blocks_ok c data il p (Match n e # bs) =
     (il \<and> 0 \<le> n \<and> n \<le> max_mlen c \<and> p + nat n \<le> length data \<and>
      (0 < n \<longrightarrow> (\<exists>d. 1 \<le> d \<and> d \<le> p \<and> int d \<le> max_off c \<and> e = enc_offset c p (int d) \<and>
                      (\<forall>j < nat n. data ! (p + j) = data ! (p - d + j)))) \<and>
      blocks_ok c data False (p + nat n) bs)"

text \<open>The two entry points of the decoder loop, selected by the phase.\<close>

definition decode_phase :: "bool \<Rightarrow> cfg \<Rightarrow> ring \<Rightarrow> nat \<Rightarrow> io \<Rightarrow> nat \<times> io" where
  "decode_phase il = (if il then decode_match else decode)"

section \<open>Block view of the emitter\<close>

text \<open>
  The requirement on a table cell that the emitter relies on: the literal length is
  positive and stays within the input; the literal cost leaves room for the cost of a
  zero-length match below \<open>INFINITE_COST\<close>; and a finite match cost comes with a real
  match within the limits.
\<close>

definition good_cell :: "cfg \<Rightarrow> byte list \<Rightarrow> lzop_st list \<Rightarrow> nat \<Rightarrow> bool" where
  "good_cell c data sp p \<longleftrightarrow>
     1 \<le> llen (sp ! p) \<and> int p + llen (sp ! p) \<le> int (length data) \<and>
     lbits (sp ! p) + zero_match_cost c \<le> INFINITE_COST \<and>
     (mbits (sp ! p) < INFINITE_COST \<longrightarrow>
        1 \<le> mlen (sp ! p) \<and> mlen (sp ! p) \<le> max_mlen c \<and>
        int p + mlen (sp ! p) \<le> int (length data) \<and>
        1 \<le> mpos (sp ! p) \<and> mpos (sp ! p) \<le> int p \<and> mpos (sp ! p) \<le> max_off c \<and>
        (\<forall>j < nat (mlen (sp ! p)). data ! (p + j) = data ! (p - nat (mpos (sp ! p)) + j)))"

definition good_table :: "cfg \<Rightarrow> byte list \<Rightarrow> lzop_st list \<Rightarrow> bool" where
  "good_table c data sp \<longleftrightarrow> (\<forall>p < length data. good_cell c data sp p)"

text \<open>
  The blocks that the emitter writes from position \<open>p\<close> on, when it arrives there with
  the flag \<open>in_literal = il\<close> and nothing left to skip: the decision of \<open>lzop_encode\<close>
  at \<open>p\<close>, the zero-length block it inserts before a block of the same kind as the
  previous one, and the blocks from the next position that is not skipped.
\<close>

function enc_blocks :: "cfg \<Rightarrow> byte list \<Rightarrow> lzop_st list \<Rightarrow> nat \<Rightarrow> bool \<Rightarrow> block list" where
  "enc_blocks c data sp p il =
     (if p < length data
      then (let cur = sp ! p;
                extra_cost = (if il then zero_match_cost c else 0)
            in if lbits cur + extra_cost \<le> mbits cur
               then (let len = (if llen cur > max_llen c then max_llen c else llen cur)
                     in (if il then [Match 0 0] else []) @
                        Literal (take (nat len) (drop p data)) #
                        enc_blocks c data sp (p + max 1 (nat len)) True)
               else (if \<not> il then [Literal []] else []) @
                    Match (mlen cur) (enc_offset c p (mpos cur)) #
                    enc_blocks c data sp (p + max 1 (nat (mlen cur))) False)
      else [])"
  by pat_completeness auto

text \<open>Appending bytes to the output buffer, with the overflow of \<open>add_byte\<close>.\<close>

definition emit :: "bf \<Rightarrow> byte list \<Rightarrow> enc_error + bf" where
  "emit b xs = (if length b + length xs \<le> 65536 then Inr (b @ xs) else Inl BufferOverflow)"

section \<open>Invariant of the parsing table\<close>

text \<open>
  What holds of the cell at position \<open>q\<close> once \<open>lzop_backfill\<close> has filled it: the
  literal length is a real run inside the input, the literal cost is at most 40 bits
  per remaining byte, and a match cost below \<open>INFINITE_COST\<close> comes with a real match.
\<close>

definition cell_inv :: "cfg \<Rightarrow> byte list \<Rightarrow> nat \<Rightarrow> lzop_st \<Rightarrow> bool" where
  "cell_inv c data q cell \<longleftrightarrow>
     0 \<le> llen cell \<and> int q + llen cell \<le> int (length data) \<and>
     (q < length data \<longrightarrow> 1 \<le> llen cell) \<and>
     lbits cell \<le> 40 * (int (length data) - int q) \<and>
     (mbits cell < INFINITE_COST \<longrightarrow>
        1 \<le> mlen cell \<and> mlen cell \<le> max_mlen c \<and>
        int q + mlen cell \<le> int (length data) \<and>
        1 \<le> mpos cell \<and> mpos cell \<le> int q \<and> mpos cell \<le> max_off c \<and>
        (\<forall>j < nat (mlen cell). data ! (q + j) = data ! (q - nat (mpos cell) + j)))"



text \<open>
  The costs kept in a cell of the table account for what the emitter writes from there:
  a literal cost pays for its header, its bytes and the match that follows it (nothing
  at the end of the input); a match cost below \<open>INFINITE_COST\<close> pays for the match
  block and for the better of a literal and a match at the position after it. Costs
  are whole bytes.
\<close>

definition lit_ok :: "cfg \<Rightarrow> nat \<Rightarrow> lzop_st list \<Rightarrow> nat \<Rightarrow> lzop_st \<Rightarrow> bool" where
  "lit_ok c n sp q cell \<longleftrightarrow>
     8 dvd lbits cell \<and>
     8 * llen cell + llen_cost c (llen cell)
       + (if q + nat (llen cell) = n then 0 else mbits (sp ! (q + nat (llen cell))))
       \<le> lbits cell"

definition mat_ok :: "cfg \<Rightarrow> lzop_st list \<Rightarrow> nat \<Rightarrow> lzop_st \<Rightarrow> bool" where
  "mat_ok c sp q cell \<longleftrightarrow>
     0 \<le> mbits cell \<and>
     (mbits cell < INFINITE_COST \<longrightarrow>
        8 dvd mbits cell \<and>
        moff_cost c (mpos cell) + mlen_cost c (mlen cell)
          + min (lbits (sp ! (q + nat (mlen cell))))
                (mbits (sp ! (q + nat (mlen cell))) + llen_cost c 1)
          \<le> mbits cell)"

definition cost_ok :: "cfg \<Rightarrow> nat \<Rightarrow> lzop_st list \<Rightarrow> nat \<Rightarrow> lzop_st \<Rightarrow> bool" where
  "cost_ok c n sp q cell \<longleftrightarrow> lit_ok c n sp q cell \<and> mat_ok c sp q cell"

text \<open>
  A bound on the costs in the table of an input that repeats one byte, for
  \<open>max_mlen = 32895\<close>: 48 bits for every 32896 bytes that remain, and 48 bits more.
\<close>

definition cost_bound :: "nat \<Rightarrow> lzop_st list \<Rightarrow> nat \<Rightarrow> bool" where
  "cost_bound n sp q \<longleftrightarrow>
     (q = n \<longrightarrow> lbits (sp ! q) \<le> 0) \<and>
     32896 * lbits (sp ! q) \<le> 32896 * 48 + 48 * (int n - int q) \<and>
     (1 \<le> q \<and> q < n \<longrightarrow> 32896 * mbits (sp ! q) \<le> 32896 * 32 + 48 * (int n - int q + 1))"

section \<open>Termination of the loops\<close>

lemma getchar_length:
  "getchar s = (x, s1) \<Longrightarrow> length (stdin s1) \<le> length (stdin s)"
  by (auto simp: getchar_def split: list.splits)

lemma getchar_length_strict:
  "getchar s = (x, s1) \<Longrightarrow> x \<noteq> EOF \<Longrightarrow> length (stdin s1) < length (stdin s)"
  by (auto simp: getchar_def split: list.splits)

lemma getchar_nonneg:
  "getchar s = (x, s1) \<Longrightarrow> x = EOF \<or> (0 \<le> x \<and> x < 256)"
proof -
  have "uint (w :: byte) < 256" for w
    using uint_bounded [of w] by simp
  then show "getchar s = (x, s1) \<Longrightarrow> x = EOF \<or> (0 \<le> x \<and> x < 256)"
    by (auto simp: getchar_def split: list.splits)
qed

lemma get_len_length:
  assumes "get_len mx s = (n, s1)" and "0 \<le> n"
  shows "length (stdin s1) < length (stdin s)"
proof -
  obtain c t where g: "getchar s = (c, t)" by (cases "getchar s")
  show ?thesis
  proof (cases "c = EOF")
    case True
    with assms g show ?thesis by (simp add: get_len_def EOF_def)
  next
    case False
    note c = this
    show ?thesis
    proof (cases "mx < 256 \<or> c < 128")
      case True
      with assms g c have "s1 = t" by (auto simp: get_len_def)
      with getchar_length_strict [OF g c] show ?thesis by simp
    next
      case False
      obtain c2 t2 where g2: "getchar t = (c2, t2)" by (cases "getchar t")
      from assms g c False g2 have "s1 = t2" by (auto simp: get_len_def)
      with getchar_length_strict [OF g c] getchar_length [OF g2] show ?thesis by simp
    qed
  qed
qed

lemma copy_literal_length:
  "copy_literal c k buf pos s = Inr (buf', pos', s') \<Longrightarrow> length (stdin s') \<le> length (stdin s)"
proof (induction k arbitrary: buf pos s)
  case 0
  then show ?case by simp
next
  case (Suc k)
  obtain x t where g: "getchar s = (x, t)" by (cases "getchar s")
  with Suc.prems have ne: "EOF \<noteq> x" by (auto split: if_splits)
  with Suc.prems g have
    "copy_literal c k (buf(pos AND dmask c := word_of_int x)) (u32 (int pos + 1)) (putchar x t)
       = Inr (buf', pos', s')" by simp
  from Suc.IH [OF this] have "length (stdin s') \<le> length (stdin (putchar x t))" .
  also have "\<dots> = length (stdin t)" by (simp add: putchar_def)
  also have "\<dots> \<le> length (stdin s)" by (rule getchar_length [OF g])
  finally show ?case .
qed

lemma read_offset_length:
  "read_offset c pos s = Inr (off, s') \<Longrightarrow> length (stdin s') \<le> length (stdin s)"
proof -
  assume a: "read_offset c pos s = Inr (off, s')"
  obtain x t where g: "getchar s = (x, t)" by (cases "getchar s")
  have t: "length (stdin t) \<le> length (stdin s)" by (rule getchar_length [OF g])
  obtain y u where h: "getchar s = (y, u)" by (cases "getchar s")
  obtain x2 t2 where g2: "getchar t = (x2, t2)" by (cases "getchar t")
  have t2: "length (stdin t2) \<le> length (stdin t)" by (rule getchar_length [OF g2])
  obtain x3 t3 where g3: "getchar s = (x3, t3)" by (cases "getchar s")
  from a g g2 t t2 show ?thesis
    by (auto simp: read_offset_def Let_def split: if_splits)
qed

lemma copy_match_stdin:
  "copy_match c k buf pos off s = (buf', pos', s') \<Longrightarrow> stdin s' = stdin s"
  by (induction k arbitrary: buf pos off s) (auto simp: putchar_def Let_def)

lemma get_len_length_sym:
  "(n, s1) = get_len mx s \<Longrightarrow> \<not> n < 0 \<Longrightarrow> length (stdin s1) < length (stdin s)"
  using get_len_length [of mx s n s1] by simp

lemma copy_match_stdin_case:
  "(case copy_match c k buf pos off s of (b, p, s') \<Rightarrow> length (stdin s')) = length (stdin s)"
  using copy_match_stdin [of c k buf pos off s] by (cases "copy_match c k buf pos off s") simp

termination decode
proof (relation "measure (\<lambda>x. case x of Inl (c, buf, pos, s) \<Rightarrow> length (stdin s)
                                      | Inr (c, buf, pos, s) \<Rightarrow> length (stdin s))",
       goal_cases)
  case 1
  show ?case by simp
next
  case 2
  then show ?case
    by (auto dest!: get_len_length_sym copy_literal_length)
next
  case 3
  then show ?case
    by (auto dest!: get_len_length_sym read_offset_length simp: copy_match_stdin_case)
next
  case 4
  then show ?case
    by (auto dest!: get_len_length_sym)
qed

termination llen_cost_loop
  by (relation "measure (\<lambda>(c, l, bits). nat l)") auto

termination get_mlen
  by (relation "measure (\<lambda>(data, a, b, mx, i). nat (mx - int i))") auto

termination match_loop
  by (relation "measure (\<lambda>(data, pos, mxlen, i, mlen, mp). pos - i)") auto

termination backfill_lit
  by (relation "measure (\<lambda>(c, sp, sz, pos, i, st). 6 - i)") auto

termination backfill_litmatch
  by (relation "measure (\<lambda>(c, sp, pos, ml, i, cur). nat (ml - int i))") auto

termination backfill_match
  by (relation "measure (\<lambda>(c, sp, pos, mp, ml, l, st). nat (ml + 1 - int l))") auto

termination encode_loop
  by (relation "measure (\<lambda>(c, data, sp, pos, st). length data - pos)") auto

declare decode.simps [simp del] decode_match.simps [simp del]
declare llen_cost_loop.simps [simp del] get_mlen.simps [simp del] match_loop.simps [simp del]
declare backfill_lit.simps [simp del] backfill_litmatch.simps [simp del]
declare backfill_match.simps [simp del] encode_loop.simps [simp del]

section \<open>Unfolding the loops on concrete inputs\<close>

lemma backfill_loop_unfold:
  "0 < n \<Longrightarrow> backfill_loop c data n sp =
     backfill_loop c data (n - 1) (sp[n - 1 := backfill_step c data sp (n - 1)])"
  by (cases n) simp_all

lemma copy_match_unfold:
  "0 < k \<Longrightarrow> copy_match c k buf pos off s =
     copy_match c (k - 1) (buf(pos AND dmask c := buf (off AND dmask c)))
       (u32 (int pos + 1)) (u32 (int off + 1)) (putchar (uint (buf (off AND dmask c))) s)"
  by (cases k) (simp_all add: Let_def)

lemma copy_literal_unfold:
  "0 < k \<Longrightarrow> copy_literal c k buf pos s =
     (case getchar s of (x, s1) \<Rightarrow>
      if EOF = x then Inl (pos, eprint ShortLiteral s1)
      else copy_literal c (k - 1) (buf(pos AND dmask c := word_of_int x))
             (u32 (int pos + 1)) (putchar x s1))"
  by (cases k; cases "getchar s") simp_all

lemmas enc_eval =
  lz8s_def fread_def check_options_def default_cfg_def ebind_def add_byte_def
  encode_loop.simps lzop_encode_def code_match_def lzop_backfill_def backfill_loop_unfold
  backfill_step_def backfill_lit.simps backfill_litmatch.simps backfill_match.simps
  match_def match_loop.simps get_mlen.simps llen_cost_def llen_cost_loop.simps
  zero_match_cost_def mlen_cost_def moff_cost_def max_off_def INFINITE_COST_def min_mlen_def
  zero_st_def Let_def

text \<open>
  The decoder equations restricted to a stream state that is written out, so that they
  unfold only as far as the input is known.
\<close>

lemma decode_on_nil:
  "decode c buf pos \<lparr>stdin = [], stdout = out, stderr = err\<rparr> =
     (pos, \<lparr>stdin = [], stdout = out, stderr = err\<rparr>)"
  by (simp add: decode.simps get_len_def getchar_def EOF_def)

lemma decode_match_on_nil:
  "decode_match c buf pos \<lparr>stdin = [], stdout = out, stderr = err\<rparr> =
     (pos, \<lparr>stdin = [], stdout = out, stderr = err\<rparr>)"
  by (simp add: decode_match.simps get_len_def getchar_def EOF_def)

lemmas decode_on_cons =
  decode.simps [of _ _ _ "\<lparr>stdin = x # xs, stdout = out, stderr = err\<rparr>"]
  for x xs out err

lemmas decode_match_on_cons =
  decode_match.simps [of _ _ _ "\<lparr>stdin = x # xs, stdout = out, stderr = err\<rparr>"]
  for x xs out err

lemmas dec_eval =
  lz8dec_def decode_on_nil decode_match_on_nil decode_on_cons decode_match_on_cons get_len_def getchar_def putchar_def eprint_def
  EOF_def copy_literal_unfold copy_match_unfold read_offset_def match_source_def
  dmask_def u32_def as_int_def default_cfg_def push_bit_eq_mult Let_def

lemmas eval_cong = sum.case_cong_weak prod.case_cong_weak list.case_cong_weak

section \<open>Concrete scenarios\<close>

text \<open>
  C3, as stated in the specification: with the default configuration the one-byte
  input "A" is encoded as the three bytes \<open>01 41 00\<close>. The encoder does not do that:
  it writes nothing after the last block.
\<close>

theorem encode_A_three_bytes_counterexample:
  "lz8s default_cfg [0x41] \<noteq> Inr [0x01, 0x41, 0x00]"
  by (simp add: enc_eval cong: eval_cong)

text \<open>
  C3, amended: with the default configuration the one-byte input "A" is encoded as
  exactly the two bytes \<open>01 41\<close> (literal length 1, the byte 'A', and no match-length
  byte), and decoding these two bytes writes "A", returns 1 and prints no error,
  whatever the decoder's buffer held before.
\<close>

theorem encode_A_two_bytes:
  "lz8s default_cfg [0x41] = Inr [0x01, 0x41] \<and>
   lz8dec default_cfg buf0 [0x01, 0x41] = (1, \<lparr>stdin = [], stdout = [0x41], stderr = []\<rparr>)"
proof
  show "lz8s default_cfg [0x41] = Inr [0x01, 0x41]"
    by (simp add: enc_eval cong: eval_cong)
  show "lz8dec default_cfg buf0 [0x01, 0x41] = (1, \<lparr>stdin = [], stdout = [0x41], stderr = []\<rparr>)"
    by (simp add: dec_eval cong: eval_cong)
qed

text \<open>
  C4: in \<open>get_len\<close>, end of file in place of the second byte of a two-byte length
  should be reported ("end of file reading second byte of length"). The code tests
  \<open>c\<close> again instead of \<open>c2\<close>, so on the one-byte stream \<open>80\<close> with a limit of 256
  nothing is reported: \<open>get_len\<close> returns \<open>128 + (EOF << 7) = 0\<close> with an empty
  \<open>stderr\<close>, and \<open>decode\<close> with \<open>max_llen = 256\<close> ends as if the stream were complete.
\<close>

theorem get_len_eof_second_byte_not_reported:
  "get_len 256 \<lparr>stdin = [0x80], stdout = [], stderr = []\<rparr>
     = (0, \<lparr>stdin = [], stdout = [], stderr = []\<rparr>) \<and>
   lz8dec (default_cfg\<lparr>max_llen := 256\<rparr>) buf0 [0x80]
     = (0, \<lparr>stdin = [], stdout = [], stderr = []\<rparr>)"
proof
  show "get_len 256 \<lparr>stdin = [0x80], stdout = [], stderr = []\<rparr>
          = (0, \<lparr>stdin = [], stdout = [], stderr = []\<rparr>)"
    by (simp add: get_len_def getchar_def EOF_def push_bit_eq_mult)
  show "lz8dec (default_cfg\<lparr>max_llen := 256\<rparr>) buf0 [0x80]
          = (0, \<lparr>stdin = [], stdout = [], stderr = []\<rparr>)"
    by (simp add: dec_eval cong: eval_cong)
qed

text \<open>
  C9: for every configuration that passes the option checks, encoding the empty input
  gives the empty output; and decoding the empty stream returns 0, writes nothing and
  prints no error.
\<close>

theorem empty_input_empty_output:
  "check_options c \<Longrightarrow>
     lz8s c [] = Inr [] \<and>
     lz8dec c buf0 [] = (0, \<lparr>stdin = [], stdout = [], stderr = []\<rparr>)"
  by (simp add: lz8s_def fread_def encode_loop.simps ebind_def lz8dec_def decode_on_nil as_int_def)

theorem empty_input_empty_output_witness:
  "check_options default_cfg \<and>
   lz8s default_cfg [] = Inr [] \<and>
   lz8dec default_cfg (\<lambda>_. 0) [] = (0, \<lparr>stdin = [], stdout = [], stderr = []\<rparr>)"
proof -
  have h: "check_options default_cfg"
    by (simp add: check_options_def default_cfg_def)
  show ?thesis
    using h empty_input_empty_output [OF h, of "\<lambda>_. 0"] by simp
qed

section \<open>Length and offset fields\<close>

lemma and_127: "(x::int) AND 0x7F = x mod 128"
proof -
  have "x AND mask 7 = x mod 2 ^ 7"
    by (simp only: take_bit_eq_mask [symmetric] take_bit_eq_mod)
  then show ?thesis by (simp add: mask_eq_exp_minus_1)
qed

lemma and_255: "(x::int) AND 0xFF = x mod 256"
proof -
  have "x AND mask 8 = x mod 2 ^ 8"
    by (simp only: take_bit_eq_mask [symmetric] take_bit_eq_mod)
  then show ?thesis by (simp add: mask_eq_exp_minus_1)
qed

lemma and_65535: "(x::int) AND 0xFFFF = x mod 65536"
proof -
  have "x AND mask 16 = x mod 2 ^ 16"
    by (simp only: take_bit_eq_mask [symmetric] take_bit_eq_mod)
  then show ?thesis by (simp add: mask_eq_exp_minus_1)
qed

lemma nat_and_255: "(x::nat) AND 0xFF = x mod 256"
proof -
  have "x AND mask 8 = x mod 2 ^ 8"
    by (simp only: take_bit_eq_mask [symmetric] take_bit_eq_mod)
  then show ?thesis by (simp add: mask_eq_exp_minus_1)
qed

lemma nat_and_65535: "(x::nat) AND 0xFFFF = x mod 65536"
proof -
  have "x AND mask 16 = x mod 2 ^ 16"
    by (simp only: take_bit_eq_mask [symmetric] take_bit_eq_mod)
  then show ?thesis by (simp add: mask_eq_exp_minus_1)
qed

lemma bit_128: "bit (128::int) n \<longleftrightarrow> n = 7"
proof -
  have "bit (push_bit 7 (1::int)) n \<longleftrightarrow> n = 7"
    by (auto simp add: bit_push_bit_iff bit_1_iff simp del: push_bit_of_1 push_bit_numeral)
  then show ?thesis by simp
qed

lemma or_128_and_255: "((0x80::int) OR x) AND 0xFF = 0x80 OR (x AND 0x7F)"
proof -
  have "(128 OR x) AND mask 8 = 128 OR (x AND mask 7)"
    by (rule bit_eqI) (auto simp add: bit_simps bit_128)
  then show ?thesis by (simp add: mask_eq_exp_minus_1)
qed

lemma or_128_plus: "(0x80::int) OR (x AND 0x7F) = 128 + x mod 128"
proof -
  have "128 + (x AND mask 7) = 128 OR (x AND mask 7)"
    by (rule disjunctive_add) (auto simp add: bit_simps bit_128)
  then have "(0x80::int) OR (x AND 0x7F) = 128 + (x AND 0x7F)"
    by (simp add: mask_eq_exp_minus_1)
  then show ?thesis by (simp add: and_127)
qed

lemma byte_of_mod: "(word_of_int (x mod 256) :: byte) = word_of_int x"
  by (simp add: word_of_int_eq_iff take_bit_eq_mod)

lemma byte_or_128:
  "(word_of_int (128 OR len) :: byte) = word_of_int (128 OR (len AND 127))"
proof -
  have "(word_of_int ((128 OR len) AND 255) :: byte) = word_of_int (128 OR len)"
    by (simp only: and_255 byte_of_mod)
  then show ?thesis
    using or_128_and_255 [of len] by simp
qed

lemma byte_and_255: "(word_of_int (x AND 255) :: byte) = word_of_int x"
  by (simp only: and_255 byte_of_mod)

lemma uint_byte: "0 \<le> x \<Longrightarrow> x < 256 \<Longrightarrow> uint (word_of_int x :: byte) = x"
  by (simp add: uint_word_of_int)

lemma add_byte_iff:
  "add_byte b x = (if length b + 1 \<le> 65536 then Inr (b @ [word_of_int x]) else Inl BufferOverflow)"
  by (simp add: add_byte_def)

lemma len_header_bytes:
  "ebind (if len > 127 \<and> mx > 255
          then ebind (add_byte b ((0x80 OR len) AND 0xFF)) (\<lambda>b1. add_byte b1 (drop_bit 7 len - 1))
          else add_byte b (len AND 0xFF)) f =
     (if length b + length (len_field mx len) \<le> 65536
      then f (b @ len_field mx len) else Inl BufferOverflow)"
proof -
  have 1: "(word_of_int ((0x80 OR len) AND 0xFF) :: byte) = word_of_int (0x80 OR (len AND 0x7F))"
    by (simp only: or_128_and_255)
  have 2: "(word_of_int (len AND 0xFF) :: byte) = word_of_int len"
    by (rule byte_and_255)
  show ?thesis
    unfolding add_byte_def ebind_def len_field_def 1 2
    by (simp del: of_int_and_eq of_int_or_eq)
qed

lemma offset_bytes:
  assumes "length b \<le> 65536"
  shows "ebind (if bits_moff c \<noteq> 0 then add_byte b (off AND 0xFF) else Inr b)
           (\<lambda>b3. if bits_moff c > 8 then add_byte b3 (drop_bit 8 off) else Inr b3) =
         (if length b + length (offset_field c off) \<le> 65536
          then Inr (b @ offset_field c off) else Inl BufferOverflow)"
proof -
  have 2: "(word_of_int (off AND 0xFF) :: byte) = word_of_int off"
    by (rule byte_and_255)
  show ?thesis
    using assms unfolding add_byte_def ebind_def offset_field_def 2
    by (simp del: of_int_and_eq of_int_or_eq)
qed

lemma code_match_bytes:
  assumes "length b \<le> 65536"
  shows "code_match c b len off =
     (if length b + length (match_block c len off) \<le> 65536
      then Inr (b @ match_block c len off) else Inl BufferOverflow)"
proof (cases "length b + length (len_field (max_mlen c) len) \<le> 65536")
  case True
  then have "length (b @ len_field (max_mlen c) len) \<le> 65536" by simp
  from offset_bytes [OF this] True assms show ?thesis
    unfolding code_match_def len_header_bytes match_block_def by auto
next
  case False
  then show ?thesis
    unfolding code_match_def len_header_bytes match_block_def by simp
qed

lemma getchar_cons:
  "getchar \<lparr>stdin = x # xs, stdout = out, stderr = err\<rparr>
     = (uint x, \<lparr>stdin = xs, stdout = out, stderr = err\<rparr>)"
  by (simp add: getchar_def)

lemma get_len_len_field:
  assumes "0 \<le> L" "L \<le> mx" "mx \<le> 32895"
  shows "get_len mx \<lparr>stdin = len_field mx L @ rest, stdout = out, stderr = err\<rparr>
           = (L, \<lparr>stdin = rest, stdout = out, stderr = err\<rparr>)"
proof (cases "mx \<le> 255 \<or> L < 128")
  case True
  with assms have "L < 256" by auto
  with assms True show ?thesis
    by (auto simp add: len_field_def get_len_def getchar_cons uint_byte EOF_def)
next
  case False
  then have big: "255 < mx" "128 \<le> L" by auto
  have r: "0 \<le> L mod 128" "L mod 128 < 128" by simp_all
  have q: "1 \<le> L div 128" "L div 128 \<le> 256" using big assms by auto
  have "uint (word_of_int (128 + L mod 128) :: byte) = 128 + L mod 128"
    by (rule uint_byte) (use r in auto)
  then have b1: "uint (word_of_int (0x80 OR (L AND 0x7F)) :: byte) = 128 + L mod 128"
    by (simp only: or_128_plus)
  have "uint (word_of_int (L div 128 - 1) :: byte) = L div 128 - 1"
    by (rule uint_byte) (use q in auto)
  then have b2: "uint (word_of_int (drop_bit 7 L - 1) :: byte) = L div 128 - 1"
    by (simp only: drop_bit_eq_div) simp
  have "128 + L mod 128 + (L div 128 - 1) * 128 = L"
    by (simp add: algebra_simps)
  with False big r b1 b2 show ?thesis
    by (simp add: len_field_def get_len_def getchar_cons EOF_def push_bit_eq_mult)
qed

text \<open>
  C7: the length fields written by the encoder and read by \<open>get_len\<close> are inverse.
  For every limit up to 32895 and every length \<open>L\<close> from 0 to the limit, \<open>code_match\<close>
  writes the two bytes \<open>0x80 | (L & 0x7F)\<close>, \<open>(L >> 7) - 1\<close> when the limit is above
  255 and \<open>L \<ge> 128\<close>, and the single byte \<open>L\<close> otherwise; and \<open>get_len\<close> with the
  same limit reads this header back as \<open>L\<close>, consuming exactly these bytes and
  printing nothing.
\<close>

theorem length_field_inverse:
  assumes "0 \<le> L" and "L \<le> max_mlen c" and "max_mlen c \<le> 32895"
  shows "(\<exists>offs. code_match c [] L off =
            Inr ((if 255 < max_mlen c \<and> 128 \<le> L
                  then [word_of_int (0x80 OR (L AND 0x7F)), word_of_int (drop_bit 7 L - 1)]
                  else [word_of_int L]) @ offs)) \<and>
         get_len (max_mlen c)
           \<lparr>stdin = (if 255 < max_mlen c \<and> 128 \<le> L
                     then [word_of_int (0x80 OR (L AND 0x7F)), word_of_int (drop_bit 7 L - 1)]
                     else [word_of_int L]) @ rest,
            stdout = out, stderr = err\<rparr>
           = (L, \<lparr>stdin = rest, stdout = out, stderr = err\<rparr>)"
proof -
  have e: "(if 255 < max_mlen c \<and> 128 \<le> L
            then [word_of_int (0x80 OR (L AND 0x7F)), word_of_int (drop_bit 7 L - 1)]
            else [word_of_int L]) = len_field (max_mlen c) L"
    by (auto simp add: len_field_def)
  have "length (match_block c L off) \<le> 65536"
    by (simp add: match_block_def len_field_def offset_field_def)
  then have "code_match c [] L off = Inr (len_field (max_mlen c) L @
               (if L \<noteq> 0 \<or> zero_offset c then offset_field c off else []))"
    by (auto simp add: code_match_bytes match_block_def)
  then have "\<exists>offs. code_match c [] L off = Inr (len_field (max_mlen c) L @ offs)"
    by blast
  with get_len_len_field [OF assms] show ?thesis
    unfolding e by simp
qed

theorem length_field_inverse_witness:
  "(0::int) \<le> 200 \<and> 200 \<le> max_mlen (default_cfg\<lparr>max_mlen := 300\<rparr>) \<and>
   max_mlen (default_cfg\<lparr>max_mlen := 300\<rparr>) \<le> 32895 \<and>
   code_match (default_cfg\<lparr>max_mlen := 300\<rparr>) [] 200 0 = Inr [0xC8, 0x00, 0x00] \<and>
   get_len 300 \<lparr>stdin = [0xC8, 0x00, 0x00], stdout = [], stderr = []\<rparr>
     = (200, \<lparr>stdin = [0x00], stdout = [], stderr = []\<rparr>)"
proof -
  have h: "(0::int) \<le> 200" "200 \<le> max_mlen (default_cfg\<lparr>max_mlen := 300\<rparr>)"
    "max_mlen (default_cfg\<lparr>max_mlen := 300\<rparr>) \<le> 32895"
    by (simp_all add: default_cfg_def)
  have b: "(0x80::int) OR (200 AND 0x7F) = 200" by simp
  have d: "drop_bit 7 (200::int) - 1 = 0" by (simp add: drop_bit_eq_div)
  have m: "max_mlen (default_cfg\<lparr>max_mlen := 300\<rparr>) = 300" by (simp add: default_cfg_def)
  have cm: "code_match (default_cfg\<lparr>max_mlen := 300\<rparr>) [] 200 0 = Inr [0xC8, 0x00, 0x00]"
    by (simp add: code_match_def add_byte_def ebind_def default_cfg_def drop_bit_eq_div)
  from length_field_inverse [OF h, of 0 "[0x00]" "[]" "[]"] h cm show ?thesis
    by (simp add: m b d)
qed

section \<open>The match finder\<close>

lemma get_mlen_spec:
  "0 \<le> mx \<Longrightarrow> int i \<le> mx \<Longrightarrow> (\<forall>k < i. data ! (a + k) = data ! (b + k)) \<Longrightarrow>
     capped_prefix data a b mx (get_mlen data a b mx i)"
proof (induction data a b mx i rule: get_mlen.induct)
  case (1 data a b mx i)
  show ?case
  proof (cases "int i < mx")
    case lt: True
    show ?thesis
    proof (cases "data ! (a + i) \<noteq> data ! (b + i)")
      case True
      with lt have "get_mlen data a b mx i = int i"
        by (simp add: get_mlen.simps [of data a b mx i])
      with True lt "1.prems" show ?thesis
        by (simp add: capped_prefix_def)
    next
      case False
      with lt have e: "get_mlen data a b mx i = get_mlen data a b mx (i + 1)"
        by (simp add: get_mlen.simps [of data a b mx i])
      have "\<forall>k < i + 1. data ! (a + k) = data ! (b + k)"
        using False "1.prems"(3) by (auto simp add: less_Suc_eq)
      with "1.IH" [OF lt False "1.prems"(1)] lt show ?thesis
        unfolding e by simp
    qed
  next
    case False
    then have "get_mlen data a b mx i = mx"
      by (simp add: get_mlen.simps [of data a b mx i])
    moreover from False "1.prems" have "nat mx = i" by simp
    ultimately show ?thesis
      using "1.prems" by (simp add: capped_prefix_def)
  qed
qed

lemma get_mlen_capped:
  "0 \<le> mx \<Longrightarrow> capped_prefix data a b mx (get_mlen data a b mx 0)"
  by (rule get_mlen_spec) simp_all

lemma match_loop_spec:
  "0 \<le> mxlen \<Longrightarrow> match_loop data pos mxlen i m0 mp = (ml, mpr) \<Longrightarrow>
     m0 \<le> ml \<and>
     (\<forall>j. i \<le> j \<and> j < pos \<longrightarrow> get_mlen data pos j mxlen 0 \<le> ml) \<and>
     (ml = m0 \<longrightarrow> mpr = mp) \<and>
     (m0 < ml \<longrightarrow>
        (\<exists>j. i \<le> j \<and> j < pos \<and> get_mlen data pos j mxlen 0 = ml \<and> mpr = int pos - int j \<and>
             (\<forall>j'. i \<le> j' \<and> j' < j \<longrightarrow> get_mlen data pos j' mxlen 0 < ml)))"
proof (induction data pos mxlen i m0 mp rule: match_loop.induct)
  case (1 data pos mxlen i m0 mp)
  let ?G = "\<lambda>j. get_mlen data pos j mxlen 0"
  have cap: "?G j \<le> mxlen" for j
    using get_mlen_capped [OF "1.prems"(1), of data pos j] unfolding capped_prefix_def by blast
  show ?case
  proof (cases "i < pos")
    case False
    with "1.prems" show ?thesis
      by (simp add: match_loop.simps [of data pos mxlen i m0 mp])
  next
    case lt: True
    show ?thesis
    proof (cases "?G i > m0")
      case better: True
      show ?thesis
      proof (cases "?G i \<ge> mxlen")
        case True
        with lt better "1.prems" have r: "ml = ?G i" "mpr = int pos - int i"
          by (simp_all add: match_loop.simps [of data pos mxlen i m0 mp] Let_def)
        from True cap r have "\<forall>j. ?G j \<le> ml" by (metis order_trans)
        with r better lt show ?thesis by auto
      next
        case False
        with lt better "1.prems" have
          e: "match_loop data pos mxlen (i + 1) (?G i) (int pos - int i) = (ml, mpr)"
          by (simp add: match_loop.simps [of data pos mxlen i m0 mp] Let_def)
        note ih = "1.IH"(1) [OF lt refl better False "1.prems"(1) e]
        from ih have a: "?G i \<le> ml" by simp
        from ih have b: "\<forall>j. i + 1 \<le> j \<and> j < pos \<longrightarrow> ?G j \<le> ml" by simp
        have all: "\<forall>j. i \<le> j \<and> j < pos \<longrightarrow> ?G j \<le> ml"
        proof (intro allI impI)
          fix j assume "i \<le> j \<and> j < pos"
          then have "j = i \<or> (i + 1 \<le> j \<and> j < pos)" by auto
          with a b show "?G j \<le> ml" by auto
        qed
        have win: "\<exists>j. i \<le> j \<and> j < pos \<and> ?G j = ml \<and> mpr = int pos - int j \<and>
             (\<forall>j'. i \<le> j' \<and> j' < j \<longrightarrow> ?G j' < ml)"
        proof (cases "ml = ?G i")
          case True
          with ih have "mpr = int pos - int i" by simp
          with True lt show ?thesis by (intro exI [of _ i]) auto
        next
          case False
          with a have "?G i < ml" by simp
          with ih obtain j where j: "i + 1 \<le> j" "j < pos" "?G j = ml" "mpr = int pos - int j"
            "\<forall>j'. i + 1 \<le> j' \<and> j' < j \<longrightarrow> ?G j' < ml" by auto
          have "\<forall>j'. i \<le> j' \<and> j' < j \<longrightarrow> ?G j' < ml"
          proof (intro allI impI)
            fix j' assume "i \<le> j' \<and> j' < j"
            then have "j' = i \<or> (i + 1 \<le> j' \<and> j' < j)" by auto
            with \<open>?G i < ml\<close> j(5) show "?G j' < ml" by auto
          qed
          with j show ?thesis by (intro exI [of _ j]) auto
        qed
        from a better all win show ?thesis by auto
      qed
    next
      case False
      with lt "1.prems" have
        e: "match_loop data pos mxlen (i + 1) m0 mp = (ml, mpr)"
        by (simp add: match_loop.simps [of data pos mxlen i m0 mp] Let_def)
      note ih = "1.IH"(2) [OF lt refl False "1.prems"(1) e]
      from ih have a: "m0 \<le> ml" by simp
      from ih have b: "\<forall>j. i + 1 \<le> j \<and> j < pos \<longrightarrow> ?G j \<le> ml" by simp
      from False a have gi: "?G i \<le> ml" by simp
      have all: "\<forall>j. i \<le> j \<and> j < pos \<longrightarrow> ?G j \<le> ml"
      proof (intro allI impI)
        fix j assume "i \<le> j \<and> j < pos"
        then have "j = i \<or> (i + 1 \<le> j \<and> j < pos)" by auto
        with gi b show "?G j \<le> ml" by auto
      qed
      have win: "m0 < ml \<longrightarrow> (\<exists>j. i \<le> j \<and> j < pos \<and> ?G j = ml \<and> mpr = int pos - int j \<and>
             (\<forall>j'. i \<le> j' \<and> j' < j \<longrightarrow> ?G j' < ml))"
      proof
        assume m: "m0 < ml"
        with ih obtain j where j: "i + 1 \<le> j" "j < pos" "?G j = ml" "mpr = int pos - int j"
          "\<forall>j'. i + 1 \<le> j' \<and> j' < j \<longrightarrow> ?G j' < ml" by auto
        from False m have "?G i < ml" by simp
        have "\<forall>j'. i \<le> j' \<and> j' < j \<longrightarrow> ?G j' < ml"
        proof (intro allI impI)
          fix j' assume "i \<le> j' \<and> j' < j"
          then have "j' = i \<or> (i + 1 \<le> j' \<and> j' < j)" by auto
          with \<open>?G i < ml\<close> j(5) show "?G j' < ml" by auto
        qed
        with j show "\<exists>j. i \<le> j \<and> j < pos \<and> ?G j = ml \<and> mpr = int pos - int j \<and>
             (\<forall>j'. i \<le> j' \<and> j' < j \<longrightarrow> ?G j' < ml)" by (intro exI [of _ j]) auto
      qed
      from a all win ih show ?thesis by auto
    qed
  qed
qed

text \<open>
  C2, as stated: among the window positions that reach the largest match length, the
  later one (smaller offset) wins. On the input "AAA" at position 2 both window
  positions 0 and 1 give length 1 (the cap), and \<open>match\<close> returns offset 2, that of the
  earlier position 0, not offset 1.
\<close>

theorem match_tie_counterexample:
  "match default_cfg [0x41, 0x41, 0x41] 2 3 0 = (1, 2) \<and>
   get_mlen [0x41, 0x41, 0x41] 2 0 1 0 = 1 \<and>
   get_mlen [0x41, 0x41, 0x41] 2 1 1 0 = 1"
  by (simp add: match_def match_loop.simps get_mlen.simps max_off_def default_cfg_def Let_def)

text \<open>
  C2, amended: for every input and every position \<open>p\<close> within it, \<open>match\<close> scans the
  window positions \<open>i\<close> from \<open>max(p - max_off, 0)\<close> to \<open>p - 1\<close>; for each of them
  \<open>get_mlen\<close> is the common prefix length of \<open>data[p..]\<close> and \<open>data[i..]\<close> capped by
  \<open>min(max_mlen, N - p)\<close>; the length returned is the largest of these; when it is
  positive, the offset returned is \<open>p - i\<close> for the earliest window position \<open>i\<close> that
  reaches it (the largest offset among the ties, every earlier position being strictly
  shorter); and when no position gives a match of length at least 1, length 0 is
  returned and \<open>*mpos\<close> is left as it was.
\<close>

theorem match_largest_earliest:
  assumes "pos \<le> length data" and "1 \<le> max_mlen c"
    and "match c data pos (length data) mp0 = (ml, mp)"
  shows "(\<forall>i. window_start c pos \<le> i \<and> i < pos \<longrightarrow>
            capped_prefix data pos i (match_cap c (length data) pos)
              (get_mlen data pos i (match_cap c (length data) pos) 0) \<and>
            get_mlen data pos i (match_cap c (length data) pos) 0 \<le> ml) \<and>
         0 \<le> ml \<and>
         (ml = 0 \<longrightarrow> mp = mp0) \<and>
         (0 < ml \<longrightarrow>
            (\<exists>i. window_start c pos \<le> i \<and> i < pos \<and>
                 get_mlen data pos i (match_cap c (length data) pos) 0 = ml \<and>
                 mp = int pos - int i \<and>
                 (\<forall>j. window_start c pos \<le> j \<and> j < i \<longrightarrow>
                      get_mlen data pos j (match_cap c (length data) pos) 0 < ml)))"
proof -
  let ?cap = "match_cap c (length data) pos"
  have cap: "- max (- max_mlen c) (int pos - int (length data)) = ?cap"
    by (simp add: match_cap_def min_def max_def)
  have nn: "0 \<le> ?cap"
    using assms(1,2) by (simp add: match_cap_def)
  from assms(3) have
    m: "match_loop data pos ?cap (window_start c pos) 0 mp0 = (ml, mp)"
    by (simp add: match_def Let_def cap window_start_def)
  note spec = match_loop_spec [OF nn m]
  have "capped_prefix data pos i ?cap (get_mlen data pos i ?cap 0)" for i
    by (rule get_mlen_capped [OF nn])
  with spec show ?thesis by auto
qed

theorem match_largest_earliest_witness:
  "(2::nat) \<le> length [0x41, 0x41, 0x41 :: byte] \<and> 1 \<le> max_mlen default_cfg \<and>
   match default_cfg [0x41, 0x41, 0x41] 2 (length [0x41, 0x41, 0x41 :: byte]) 0 = (1, 2) \<and>
   (\<exists>i. window_start default_cfg 2 \<le> i \<and> i < 2 \<and>
        get_mlen [0x41, 0x41, 0x41] 2 i
          (match_cap default_cfg (length [0x41, 0x41, 0x41 :: byte]) 2) 0 = 1 \<and>
        (2::int) = int 2 - int i \<and>
        (\<forall>j. window_start default_cfg 2 \<le> j \<and> j < i \<longrightarrow>
             get_mlen [0x41, 0x41, 0x41] 2 j
               (match_cap default_cfg (length [0x41, 0x41, 0x41 :: byte]) 2) 0 < 1))"
proof -
  have h1: "(2::nat) \<le> length [0x41, 0x41, 0x41 :: byte]" by simp
  have h2: "1 \<le> max_mlen default_cfg" by (simp add: default_cfg_def)
  have h3: "match default_cfg [0x41, 0x41, 0x41] 2 (length [0x41, 0x41, 0x41 :: byte]) 0 = (1, 2)"
    by (simp add: match_def match_loop.simps get_mlen.simps max_off_def default_cfg_def Let_def)
  from match_largest_earliest [OF h1 h2 h3] h1 h2 h3 show ?thesis
    by simp
qed

section \<open>The decoder on well-formed blocks\<close>

lemma and_dmask: "x AND dmask c = x mod (dmask c + 1)"
  by (simp add: dmask_def nat_and_255 nat_and_65535)

lemma dmask_pos: "0 < dmask c + 1"
  by simp

lemma dmask_dvd: "(dmask c + 1) dvd 2 ^ 32"
proof -
  have "(256::nat) dvd 2 ^ 32" "(65536::nat) dvd 2 ^ 32" by simp_all
  then show ?thesis by (simp add: dmask_def)
qed

lemma u32_mod_dmask: "0 \<le> x \<Longrightarrow> u32 x mod (dmask c + 1) = nat x mod (dmask c + 1)"
proof -
  assume x: "0 \<le> x"
  have "u32 x = nat x mod 2 ^ 32"
    using x by (simp add: u32_def nat_mod_distrib)
  then show ?thesis
    using dmask_dvd [of c] by (simp add: mod_mod_cancel)
qed

lemma u32_small: "0 \<le> x \<Longrightarrow> x < 2 ^ 32 \<Longrightarrow> u32 x = nat x"
  by (simp add: u32_def)

lemma uint_not_EOF: "EOF \<noteq> uint (x :: byte)"
  using uint_nonnegative [of x] unfolding EOF_def by linarith

lemma ring_ok_step:
  assumes "ring_ok c data p buf"
  shows "ring_ok c data (Suc p) (buf(p mod (dmask c + 1) := data ! p))"
  unfolding ring_ok_def
proof (intro allI impI)
  fix q assume q: "q < Suc p" and d: "Suc p - q \<le> dmask c + 1"
  let ?M = "dmask c + 1"
  show "(buf(p mod ?M := data ! p)) (q mod ?M) = data ! q"
  proof (cases "q = p")
    case True
    then show ?thesis by simp
  next
    case False
    with q have lt: "q < p" by simp
    have ne: "q mod ?M \<noteq> p mod ?M"
    proof
      assume "q mod ?M = p mod ?M"
      then have "?M dvd p - q"
        using lt by (metis mod_eq_dvd_iff_nat less_imp_le_nat)
      moreover have "0 < p - q" "p - q < ?M" using lt d by auto
      ultimately show False by (meson dvd_imp_le not_less)
    qed
    from assms lt d have "buf (q mod ?M) = data ! q"
      by (simp add: ring_ok_def)
    with ne show ?thesis by simp
  qed
qed

lemma copy_literal_ok:
  assumes "p + k \<le> length data" and "length data < 2 ^ 32" and "ring_ok c data p buf"
  shows "\<exists>buf'. copy_literal c k buf p
             \<lparr>stdin = take k (drop p data) @ rest, stdout = take p data, stderr = err\<rparr>
           = Inr (buf', p + k, \<lparr>stdin = rest, stdout = take (p + k) data, stderr = err\<rparr>) \<and>
           ring_ok c data (p + k) buf'"
  using assms
proof (induction k arbitrary: p buf)
  case 0
  then show ?case by simp
next
  case (Suc k)
  then have lt: "p < length data" by simp
  have t: "take (Suc k) (drop p data) = data ! p # take k (drop (Suc p) data)"
    using lt by (simp add: take_Suc_conv_app_nth Cons_nth_drop_Suc [symmetric])
  have ne: "EOF \<noteq> uint (data ! p)"
    by (rule uint_not_EOF)
  have u: "u32 (int p + 1) = Suc p"
    using lt Suc.prems(2) by (simp add: u32_def nat_add_distrib)
  have s: "take p data @ [data ! p] = take (Suc p) data"
    using lt by (simp add: take_Suc_conv_app_nth)
  have r: "ring_ok c data (Suc p) (buf(p mod (dmask c + 1) := data ! p))"
    by (rule ring_ok_step [OF Suc.prems(3)])
  have le: "Suc p + k \<le> length data" using Suc.prems(1) by simp
  from Suc.IH [of "Suc p" "buf(p mod (dmask c + 1) := data ! p)", OF le Suc.prems(2) r]
  obtain buf' where
    "copy_literal c k (buf(p mod (dmask c + 1) := data ! p)) (Suc p)
       \<lparr>stdin = take k (drop (Suc p) data) @ rest, stdout = take (Suc p) data, stderr = err\<rparr>
     = Inr (buf', Suc p + k, \<lparr>stdin = rest, stdout = take (Suc p + k) data, stderr = err\<rparr>)"
    "ring_ok c data (Suc p + k) buf'" by blast
  then show ?case
    by (simp add: t getchar_cons ne putchar_def u s and_dmask)
qed

lemma copy_literal_short:
  assumes "p + j \<le> length data" and "length data < 2 ^ 32" and "j < k"
  shows "copy_literal c k buf p
             \<lparr>stdin = take j (drop p data), stdout = take p data, stderr = err\<rparr>
           = Inl (p + j, \<lparr>stdin = [], stdout = take (p + j) data, stderr = err @ [ShortLiteral]\<rparr>)"
  using assms
proof (induction j arbitrary: p buf k)
  case 0
  then obtain k' where "k = Suc k'" by (cases k) auto
  then show ?case by (simp add: getchar_def eprint_def)
next
  case (Suc j)
  then obtain k' where k: "k = Suc k'" "j < k'" by (cases k) auto
  from Suc.prems have lt: "p < length data" by simp
  have t: "take (Suc j) (drop p data) = data ! p # take j (drop (Suc p) data)"
    using lt by (simp add: take_Suc_conv_app_nth Cons_nth_drop_Suc [symmetric])
  have u: "u32 (int p + 1) = Suc p"
    using lt Suc.prems(2) by (simp add: u32_def nat_add_distrib)
  have s: "take p data @ [data ! p] = take (Suc p) data"
    using lt by (simp add: take_Suc_conv_app_nth)
  have le: "Suc p + j \<le> length data" using Suc.prems(1) by simp
  have step: "copy_literal c (Suc k') buf p
             \<lparr>stdin = take (Suc j) (drop p data), stdout = take p data, stderr = err\<rparr>
     = copy_literal c k' (buf(p mod (dmask c + 1) := data ! p)) (Suc p)
             \<lparr>stdin = take j (drop (Suc p) data), stdout = take (Suc p) data, stderr = err\<rparr>"
    by (simp add: t getchar_cons uint_not_EOF putchar_def u s and_dmask)
  have e: "p + Suc j = Suc p + j" by simp
  show ?case
    unfolding k step e
    by (rule Suc.IH [of "Suc p" k' "buf(p mod (dmask c + 1) := data ! p)", OF le Suc.prems(2) k(2)])
qed

lemma copy_match_ok:
  assumes "ring_ok c data p buf" and "1 \<le> d" and "d \<le> p" and "d \<le> dmask c + 1"
    and "\<forall>j < k. data ! (p + j) = data ! (p - d + j)"
    and "p + k \<le> length data" and "length data < 2 ^ 32"
    and "src mod (dmask c + 1) = (p - d) mod (dmask c + 1)"
  shows "\<exists>buf'. copy_match c k buf p src
             \<lparr>stdin = inp, stdout = take p data, stderr = err\<rparr>
           = (buf', p + k, \<lparr>stdin = inp, stdout = take (p + k) data, stderr = err\<rparr>) \<and>
           ring_ok c data (p + k) buf'"
  using assms
proof (induction k arbitrary: p buf src)
  case 0
  then show ?case by simp
next
  case (Suc k)
  let ?M = "dmask c + 1"
  from Suc.prems have lt: "p < length data" by simp
  have x: "buf (src mod ?M) = data ! p"
  proof -
    have "buf ((p - d) mod ?M) = data ! (p - d)"
      using Suc.prems(1,2,3,4) by (simp add: ring_ok_def)
    moreover have "data ! p = data ! (p - d)"
      using Suc.prems(5) by (metis add.right_neutral zero_less_Suc)
    ultimately show ?thesis using Suc.prems(8) by simp
  qed
  have u: "u32 (int p + 1) = Suc p"
    using lt Suc.prems(7) by (simp add: u32_def nat_add_distrib)
  have s: "take p data @ [data ! p] = take (Suc p) data"
    using lt by (simp add: take_Suc_conv_app_nth)
  have r: "ring_ok c data (Suc p) (buf(p mod ?M := data ! p))"
    by (rule ring_ok_step [OF Suc.prems(1)])
  have src': "u32 (int src + 1) mod ?M = (Suc p - d) mod ?M"
  proof -
    have "u32 (int src + 1) mod ?M = nat (int src + 1) mod ?M"
      by (rule u32_mod_dmask) simp
    also have "\<dots> = Suc src mod ?M" by (simp add: nat_add_distrib)
    also have "\<dots> = Suc (src mod ?M) mod ?M" by (simp add: mod_Suc_eq)
    also have "\<dots> = Suc ((p - d) mod ?M) mod ?M" using Suc.prems(8) by simp
    also have "\<dots> = Suc (p - d) mod ?M" by (simp add: mod_Suc_eq)
    also have "Suc (p - d) = Suc p - d" using Suc.prems(3) by simp
    finally show ?thesis .
  qed
  have m: "\<forall>j < k. data ! (Suc p + j) = data ! (Suc p - d + j)"
  proof (intro allI impI)
    fix j assume "j < k"
    then have "data ! (p + Suc j) = data ! (p - d + Suc j)"
      using Suc.prems(5) by (metis Suc_less_eq)
    then show "data ! (Suc p + j) = data ! (Suc p - d + j)"
      using Suc.prems(3) by (simp add: Suc_diff_le)
  qed
  have le: "Suc p + k \<le> length data" using Suc.prems(6) by simp
  have dle: "d \<le> Suc p" using Suc.prems(3) by simp
  from Suc.IH [of "Suc p" "buf(p mod ?M := data ! p)" "u32 (int src + 1)",
      OF r Suc.prems(2) dle Suc.prems(4) m le Suc.prems(7) src']
  obtain buf' where
    "copy_match c k (buf(p mod ?M := data ! p)) (Suc p) (u32 (int src + 1))
       \<lparr>stdin = inp, stdout = take (Suc p) data, stderr = err\<rparr>
     = (buf', Suc p + k, \<lparr>stdin = inp, stdout = take (Suc p + k) data, stderr = err\<rparr>)"
    "ring_ok c data (Suc p + k) buf'" by blast
  moreover have "copy_match c (Suc k) buf p src
             \<lparr>stdin = inp, stdout = take p data, stderr = err\<rparr>
     = copy_match c k (buf(p mod ?M := data ! p)) (Suc p) (u32 (int src + 1))
         \<lparr>stdin = inp, stdout = take (Suc p) data, stderr = err\<rparr>"
    using x by (simp add: Let_def putchar_def u s and_dmask)
  ultimately show ?case
    by auto
qed

lemma uint_byte_mod: "uint (word_of_int x :: byte) = x mod 256"
  by (simp add: uint_word_of_int)

lemma mod_256_not_EOF: "EOF \<noteq> (x::int) mod 256"
proof -
  have "0 \<le> x mod 256" by simp
  then show ?thesis unfolding EOF_def by linarith
qed

lemma read_offset_field:
  assumes "0 \<le> bits_moff c"
  shows "read_offset c p \<lparr>stdin = offset_field c e @ rest, stdout = out, stderr = err\<rparr>
           = Inr (dec_offset c e, \<lparr>stdin = rest, stdout = out, stderr = err\<rparr>)"
proof -
  have "e mod 256 + 256 * (e div 256 mod 256) = e mod 65536"
  proof -
    have "e mod 65536 = e mod (256 * 256)" by simp
    also have "\<dots> = e mod 256 + 256 * (e div 256 mod 256)"
      using zmod_zmult2_eq [of 256 e 256] by simp
    finally show ?thesis by simp
  qed
  then have two: "uint (word_of_int e :: byte) + push_bit 8 (uint (word_of_int (drop_bit 8 e) :: byte))
           = e mod 65536"
    by (simp only: uint_byte_mod drop_bit_eq_div push_bit_eq_mult) simp
  show ?thesis
  proof (cases "bits_moff c = 0")
    case True
    then show ?thesis
      by (simp add: read_offset_def offset_field_def dec_offset_def)
  next
    case False
    with assms have pos: "0 < bits_moff c" by simp
    show ?thesis
    proof (cases "bits_moff c \<le> 8")
      case True
      with pos show ?thesis
        by (simp add: read_offset_def offset_field_def dec_offset_def getchar_cons
            uint_not_EOF uint_byte_mod mod_256_not_EOF del: of_int_and_eq of_int_or_eq)
    next
      case False
      with pos two show ?thesis
        by (simp add: read_offset_def offset_field_def dec_offset_def getchar_cons
            uint_not_EOF del: of_int_and_eq of_int_or_eq)
    qed
  qed
qed

lemma max_off_eq: "0 \<le> bits_moff c \<Longrightarrow> max_off c = 2 ^ nat (bits_moff c)"
  by (simp add: max_off_def push_bit_eq_mult)

lemma max_off_le_dmask:
  assumes "0 \<le> bits_moff c" and "bits_moff c \<le> 16"
  shows "max_off c \<le> int (dmask c) + 1"
proof (cases "bits_moff c \<le> 8")
  case True
  then have "nat (bits_moff c) \<le> 8" by simp
  then have "(2::int) ^ nat (bits_moff c) \<le> 2 ^ 8"
    by (intro power_increasing) simp_all
  with True assms show ?thesis by (simp add: max_off_eq dmask_def)
next
  case False
  from assms have "nat (bits_moff c) \<le> 16" by simp
  then have "(2::int) ^ nat (bits_moff c) \<le> 2 ^ 16"
    by (intro power_increasing) simp_all
  with False assms show ?thesis by (simp add: max_off_eq dmask_def)
qed

lemma match_source_ok:
  assumes v: "valid_cfg c" and d: "1 \<le> d" "d \<le> p" "int d \<le> max_off c"
  shows "match_source c p (dec_offset c (enc_offset c p (int d))) mod (dmask c + 1)
           = (p - d) mod (dmask c + 1)"
proof -
  let ?M = "dmask c + 1"
  from v have b: "0 \<le> bits_moff c" "bits_moff c \<le> 16" and nx: "\<not> exor_offset c"
    by (auto simp add: valid_cfg_def check_options_def)
  from max_off_le_dmask [OF b] d have dM: "int d \<le> int ?M" by simp
  have M: "int ?M = 256 \<or> int ?M = 65536" by (simp add: dmask_def)
  have goal_int: "int (nat x mod ?M) = (int p - int d) mod int ?M \<Longrightarrow> 0 \<le> x \<Longrightarrow>
       u32 x mod ?M = (p - d) mod ?M" for x
  proof -
    assume a: "int (nat x mod ?M) = (int p - int d) mod int ?M" and x: "0 \<le> x"
    have "int ((p - d) mod ?M) = (int p - int d) mod int ?M"
      using d(2) by (simp add: zmod_int of_nat_diff)
    with a have "nat x mod ?M = (p - d) mod ?M" by linarith
    with u32_mod_dmask [OF x, of c] show ?thesis by simp
  qed
  show ?thesis
  proof (cases "offset_rel c < 0")
    case True
    have e: "enc_offset c p (int d) = int d - 1"
      using True d dM M by (auto simp add: enc_offset_def and_65535)
    have dec: "dec_offset c (int d - 1) = (if bits_moff c = 0 then 0 else int d - 1)"
    proof (cases "bits_moff c \<le> 8")
      case True
      then have "int ?M = 256" by (simp add: dmask_def)
      with dM d True show ?thesis by (simp add: dec_offset_def)
    next
      case False
      then have "int ?M = 65536" by (simp add: dmask_def)
      with dM d False show ?thesis by (simp add: dec_offset_def)
    qed
    show ?thesis
    proof (cases "bits_moff c = 0")
      case z: True
      then have "max_off c = 1" by (simp add: max_off_def)
      with d have d1: "d = 1" by simp
      have "u32 (int p - 0 + int (dmask c)) mod ?M = (p - d) mod ?M"
      proof (rule goal_int)
        show "0 \<le> int p - 0 + int (dmask c)" by simp
        have "int (nat (int p - 0 + int (dmask c)) mod ?M) = (int p + int (dmask c)) mod int ?M"
          by (simp add: zmod_int)
        also have "int p + int (dmask c) = (int p - int d) + int ?M" using d1 by simp
        also have "((int p - int d) + int ?M) mod int ?M = (int p - int d) mod int ?M"
          by (simp only: mod_add_self2)
        finally show "int (nat (int p - 0 + int (dmask c)) mod ?M) = (int p - int d) mod int ?M" .
      qed
      with True nx z show ?thesis
        by (simp add: match_source_def e dec)
    next
      case nz: False
      have "u32 (int p - (int d - 1) + int (dmask c)) mod ?M = (p - d) mod ?M"
      proof (rule goal_int)
        show "0 \<le> int p - (int d - 1) + int (dmask c)" using d by simp
        have eq: "int p - (int d - 1) + int (dmask c) = (int p - int d) + int ?M" by simp
        have a: "(int p - (int d - 1) + int (dmask c)) mod int ?M = (int p - int d) mod int ?M"
          unfolding eq by (simp only: mod_add_self2)
        have b: "int (nat (int p - (int d - 1) + int (dmask c)) mod ?M)
                = (int p - (int d - 1) + int (dmask c)) mod int ?M"
          using d by (simp add: zmod_int)
        show "int (nat (int p - (int d - 1) + int (dmask c)) mod ?M)
                     = (int p - int d) mod int ?M"
          unfolding b by (rule a)
      qed
      with True nx nz show ?thesis
        by (simp add: match_source_def e dec)
    qed
  next
    case False
    then have rel: "0 \<le> offset_rel c" by simp
    with v have b8: "(bits_moff c = 8 \<and> offset_rel c \<le> 255) \<or>
                     (bits_moff c = 16 \<and> offset_rel c \<le> 65535)"
      by (auto simp add: valid_cfg_def check_options_def split: if_splits)
    let ?x = "int p + offset_rel c - int d"
    have e: "enc_offset c p (int d) = ?x mod 65536"
      using False by (simp add: enc_offset_def and_65535)
    have dec: "dec_offset c (?x mod 65536) = ?x mod int ?M"
    proof -
      have "?x mod 65536 mod 256 = ?x mod 256"
        by (rule mod_mod_cancel) simp
      with b8 show ?thesis by (auto simp add: dec_offset_def dmask_def)
    qed
    have relM: "offset_rel c < int ?M" using b8 by (auto simp add: dmask_def)
    have nn: "0 \<le> ?x mod int ?M + int (dmask c) + 1 - offset_rel c"
    proof -
      have m0: "0 \<le> ?x mod int ?M" by simp
      from m0 relM show ?thesis by linarith
    qed
    have "u32 (?x mod int ?M + int (dmask c) + 1 - offset_rel c) mod ?M = (p - d) mod ?M"
    proof (rule goal_int [OF _ nn])
      have "int (nat (?x mod int ?M + int (dmask c) + 1 - offset_rel c) mod ?M)
              = (?x mod int ?M + int (dmask c) + 1 - offset_rel c) mod int ?M"
        using nn by (simp add: zmod_int)
      also have "\<dots> = (?x mod int ?M + (int ?M - offset_rel c)) mod int ?M"
        by (simp add: algebra_simps)
      also have "\<dots> = (?x + (int ?M - offset_rel c)) mod int ?M"
        by (simp only: mod_add_left_eq)
      also have "\<dots> = (int p - int d + int ?M) mod int ?M"
        by (simp add: algebra_simps)
      also have "\<dots> = (int p - int d) mod int ?M"
        by simp
      finally show "int (nat (?x mod int ?M + int (dmask c) + 1 - offset_rel c) mod ?M)
                      = (int p - int d) mod int ?M" .
    qed
    with False nx show ?thesis
      by (simp add: match_source_def e dec)
  qed
qed

lemma stream_Cons: "stream c (b # bs) = wire c b @ stream c bs"
  by (simp add: stream_def)

lemma stream_Nil: "stream c [] = []"
  by (simp add: stream_def)

lemma stream_append: "stream c (bs @ cs) = stream c bs @ stream c cs"
  by (simp add: stream_def)

lemma check_options_bounds:
  assumes "check_options c"
  shows "1 \<le> max_mlen c" "max_mlen c \<le> 32895" "1 \<le> max_llen c" "max_llen c \<le> 32895"
    "0 \<le> bits_moff c" "bits_moff c \<le> 16"
  using assms by (auto simp add: check_options_def)

lemma valid_cfg_check: "valid_cfg c \<Longrightarrow> check_options c"
  by (simp add: valid_cfg_def)

lemma valid_cfg_bounds:
  assumes "valid_cfg c"
  shows "1 \<le> max_mlen c" "max_mlen c \<le> 32895" "1 \<le> max_llen c" "max_llen c \<le> 32895"
    "0 \<le> bits_moff c" "bits_moff c \<le> 16" "\<not> exor_offset c"
  using assms by (auto simp add: valid_cfg_def check_options_def)

lemma decode_literal_block:
  assumes v: "valid_cfg c" and n: "length data < 2 ^ 32"
    and ok: "int (length xs) \<le> max_llen c" "p + length xs \<le> length data"
      "xs = take (length xs) (drop p data)"
    and r: "ring_ok c data p buf"
  shows "\<exists>buf'. decode c buf p
             \<lparr>stdin = wire c (Literal xs) @ rest, stdout = take p data, stderr = err\<rparr>
           = decode_match c buf' (p + length xs)
               \<lparr>stdin = rest, stdout = take (p + length xs) data, stderr = err\<rparr> \<and>
           ring_ok c data (p + length xs) buf'"
proof -
  note b = valid_cfg_bounds [OF v]
  have g: "get_len (max_llen c)
             \<lparr>stdin = len_field (max_llen c) (int (length xs)) @ (xs @ rest),
              stdout = take p data, stderr = err\<rparr>
           = (int (length xs), \<lparr>stdin = xs @ rest, stdout = take p data, stderr = err\<rparr>)"
    by (rule get_len_len_field) (use ok b in auto)
  from copy_literal_ok [OF ok(2) n r, of rest err] ok(3)
  obtain buf' where
    cl: "copy_literal c (length xs) buf p
           \<lparr>stdin = xs @ rest, stdout = take p data, stderr = err\<rparr>
         = Inr (buf', p + length xs,
                \<lparr>stdin = rest, stdout = take (p + length xs) data, stderr = err\<rparr>)"
    and r': "ring_ok c data (p + length xs) buf'" by auto
  have "decode c buf p
          \<lparr>stdin = wire c (Literal xs) @ rest, stdout = take p data, stderr = err\<rparr>
        = decode_match c buf' (p + length xs)
            \<lparr>stdin = rest, stdout = take (p + length xs) data, stderr = err\<rparr>"
    by (subst decode.simps) (simp add: g cl)
  with r' show ?thesis by blast
qed

lemma decode_match_block:
  assumes v: "valid_cfg c" and n: "length data < 2 ^ 32"
    and ok: "0 \<le> m" "m \<le> max_mlen c" "p + nat m \<le> length data"
      "0 < m \<longrightarrow> (\<exists>d. 1 \<le> d \<and> d \<le> p \<and> int d \<le> max_off c \<and> e = enc_offset c p (int d) \<and>
                      (\<forall>j < nat m. data ! (p + j) = data ! (p - d + j)))"
    and r: "ring_ok c data p buf"
  shows "\<exists>buf'. decode_match c buf p
             \<lparr>stdin = wire c (Match m e) @ rest, stdout = take p data, stderr = err\<rparr>
           = decode c buf' (p + nat m)
               \<lparr>stdin = rest, stdout = take (p + nat m) data, stderr = err\<rparr> \<and>
           ring_ok c data (p + nat m) buf'"
proof -
  note b = valid_cfg_bounds [OF v]
  have g: "get_len (max_mlen c)
             \<lparr>stdin = len_field (max_mlen c) m @ tl,
              stdout = take p data, stderr = err\<rparr>
           = (m, \<lparr>stdin = tl, stdout = take p data, stderr = err\<rparr>)" for tl
    by (rule get_len_len_field) (use ok b in auto)
  show ?thesis
  proof (cases "0 < m")
    case True
    with ok(4) obtain d where d: "1 \<le> d" "d \<le> p" "int d \<le> max_off c"
      "e = enc_offset c p (int d)" "\<forall>j < nat m. data ! (p + j) = data ! (p - d + j)" by blast
    have ro: "read_offset c p \<lparr>stdin = offset_field c e @ rest, stdout = take p data, stderr = err\<rparr>
                = Inr (dec_offset c e, \<lparr>stdin = rest, stdout = take p data, stderr = err\<rparr>)"
      by (rule read_offset_field [OF b(5)])
    have src: "match_source c p (dec_offset c e) mod (dmask c + 1) = (p - d) mod (dmask c + 1)"
      unfolding d(4) by (rule match_source_ok [OF v d(1,2,3)])
    have dM: "d \<le> dmask c + 1"
      using max_off_le_dmask [OF b(5,6)] d(3) by simp
    from copy_match_ok [OF r d(1,2) dM d(5) ok(3) n src, of rest err]
    obtain buf' where
      cm: "copy_match c (nat m) buf p (match_source c p (dec_offset c e))
             \<lparr>stdin = rest, stdout = take p data, stderr = err\<rparr>
           = (buf', p + nat m, \<lparr>stdin = rest, stdout = take (p + nat m) data, stderr = err\<rparr>)"
      and r': "ring_ok c data (p + nat m) buf'" by blast
    have "decode_match c buf p
            \<lparr>stdin = wire c (Match m e) @ rest, stdout = take p data, stderr = err\<rparr>
          = decode c buf' (p + nat m)
              \<lparr>stdin = rest, stdout = take (p + nat m) data, stderr = err\<rparr>"
      using True by (subst decode_match.simps) (simp add: match_block_def g ro cm)
    with r' show ?thesis by blast
  next
    case False
    with ok(1) have m0: "m = 0" by simp
    show ?thesis
    proof (cases "zero_offset c")
      case True
      have ro: "read_offset c p \<lparr>stdin = offset_field c e @ rest, stdout = take p data, stderr = err\<rparr>
                = Inr (dec_offset c e, \<lparr>stdin = rest, stdout = take p data, stderr = err\<rparr>)"
        by (rule read_offset_field [OF b(5)])
      have "decode_match c buf p
            \<lparr>stdin = wire c (Match m e) @ rest, stdout = take p data, stderr = err\<rparr>
          = decode c buf (p + nat m)
              \<lparr>stdin = rest, stdout = take (p + nat m) data, stderr = err\<rparr>"
        using True m0 g by (subst decode_match.simps) (simp add: match_block_def ro)
      with r m0 show ?thesis by auto
    next
      case False
      have "decode_match c buf p
            \<lparr>stdin = wire c (Match m e) @ rest, stdout = take p data, stderr = err\<rparr>
          = decode c buf (p + nat m)
              \<lparr>stdin = rest, stdout = take (p + nat m) data, stderr = err\<rparr>"
        using False m0 g by (subst decode_match.simps) (simp add: match_block_def)
      with r m0 show ?thesis by auto
    qed
  qed
qed

lemma decode_stream:
  assumes v: "valid_cfg c" and n: "length data < 2 ^ 32"
  shows "blocks_ok c data il p bs \<Longrightarrow> ring_ok c data p buf \<Longrightarrow>
     \<exists>buf'. decode_phase il c buf p
               \<lparr>stdin = stream c bs @ rest, stdout = take p data, stderr = err\<rparr>
           = decode_phase (end_phase il bs) c buf' (end_pos p bs)
               \<lparr>stdin = rest, stdout = take (end_pos p bs) data, stderr = err\<rparr> \<and>
           ring_ok c data (end_pos p bs) buf'"
proof (induction bs arbitrary: il p buf)
  case Nil
  then show ?case by (auto simp add: stream_Nil)
next
  case (Cons b bs)
  show ?case
  proof (cases b)
    case (Literal xs)
    with Cons.prems have il: "\<not> il" and ok: "int (length xs) \<le> max_llen c"
      "p + length xs \<le> length data" "xs = take (length xs) (drop p data)"
      and rest: "blocks_ok c data True (p + length xs) bs" by auto
    from decode_literal_block [OF v n ok Cons.prems(2), of "stream c bs @ rest" err]
    obtain buf1 where
      s1: "decode c buf p
             \<lparr>stdin = wire c (Literal xs) @ stream c bs @ rest, stdout = take p data, stderr = err\<rparr>
           = decode_match c buf1 (p + length xs)
               \<lparr>stdin = stream c bs @ rest, stdout = take (p + length xs) data, stderr = err\<rparr>"
      and r1: "ring_ok c data (p + length xs) buf1" by blast
    from Cons.IH [OF rest r1] obtain buf' where
      "decode_phase True c buf1 (p + length xs)
               \<lparr>stdin = stream c bs @ rest, stdout = take (p + length xs) data, stderr = err\<rparr>
           = decode_phase (end_phase True bs) c buf' (end_pos (p + length xs) bs)
               \<lparr>stdin = rest, stdout = take (end_pos (p + length xs) bs) data, stderr = err\<rparr>"
      "ring_ok c data (end_pos (p + length xs) bs) buf'" by blast
    with s1 il Literal show ?thesis
      by (auto simp add: decode_phase_def stream_Cons)
  next
    case (Match m e)
    with Cons.prems have il: "il" and ok: "0 \<le> m" "m \<le> max_mlen c" "p + nat m \<le> length data"
      "0 < m \<longrightarrow> (\<exists>d. 1 \<le> d \<and> d \<le> p \<and> int d \<le> max_off c \<and> e = enc_offset c p (int d) \<and>
                      (\<forall>j < nat m. data ! (p + j) = data ! (p - d + j)))"
      and rest: "blocks_ok c data False (p + nat m) bs" by auto
    from decode_match_block [OF v n ok Cons.prems(2), of "stream c bs @ rest" err]
    obtain buf1 where
      s1: "decode_match c buf p
             \<lparr>stdin = wire c (Match m e) @ stream c bs @ rest, stdout = take p data, stderr = err\<rparr>
           = decode c buf1 (p + nat m)
               \<lparr>stdin = stream c bs @ rest, stdout = take (p + nat m) data, stderr = err\<rparr>"
      and r1: "ring_ok c data (p + nat m) buf1" by blast
    from Cons.IH [OF rest r1] obtain buf' where
      "decode_phase False c buf1 (p + nat m)
               \<lparr>stdin = stream c bs @ rest, stdout = take (p + nat m) data, stderr = err\<rparr>
           = decode_phase (end_phase False bs) c buf' (end_pos (p + nat m) bs)
               \<lparr>stdin = rest, stdout = take (end_pos (p + nat m) bs) data, stderr = err\<rparr>"
      "ring_ok c data (end_pos (p + nat m) bs) buf'" by blast
    with s1 il Match show ?thesis
      by (auto simp add: decode_phase_def stream_Cons)
  qed
qed

section \<open>The emitter writes the stream of its blocks\<close>

termination enc_blocks
  by (relation "measure (\<lambda>(c, data, sp, p, il). length data - p)") auto

declare enc_blocks.simps [simp del]

lemma ebind_emit:
  "ebind (emit b xs) f = (if length b + length xs \<le> 65536 then f (b @ xs) else Inl BufferOverflow)"
  by (simp add: emit_def ebind_def)

lemma ebind_Inr: "ebind (Inr x) f = f x"
  by (simp add: ebind_def)

lemma ebind_Inl: "ebind (Inl e) f = Inl e"
  by (simp add: ebind_def)

lemma ebind_assoc: "ebind (ebind m f) g = ebind m (\<lambda>x. ebind (f x) g)"
  by (cases m) (simp_all add: ebind_def)

lemma add_byte_emit: "add_byte b x = emit b [word_of_int x]"
  by (simp add: add_byte_def emit_def)

lemma code_match_emit:
  "length b \<le> 65536 \<Longrightarrow> code_match c b len off = emit b (match_block c len off)"
  by (simp add: code_match_bytes emit_def)

lemma len_header_emit:
  "ebind (if mx > 255 \<and> len > 127
          then ebind (add_byte b ((0x80 OR len) AND 0xFF)) (\<lambda>b1. add_byte b1 (drop_bit 7 len - 1))
          else add_byte b (len AND 0xFF)) f =
     ebind (emit b (len_field mx len)) f"
proof -
  have "(mx > 255 \<and> len > 127) = (len > 127 \<and> mx > 255)" by auto
  then show ?thesis
    by (simp only: len_header_bytes ebind_emit)
qed

lemma lzop_encode_skip_literal:
  "int p \<le> lpos \<Longrightarrow>
     lzop_encode c data sp (b, True) p lpos = ebind (emit b [data ! p]) (\<lambda>b1. Inr ((b1, True), lpos))"
  by (simp add: lzop_encode_def add_byte_emit)

lemma lzop_encode_skip_match:
  "int p \<le> lpos \<Longrightarrow> lzop_encode c data sp (b, False) p lpos = Inr ((b, False), lpos)"
  by (simp add: lzop_encode_def)

lemma lzop_encode_literal:
  assumes "\<not> int p \<le> lpos" and "length b \<le> 65536"
    and "lbits (sp ! p) + (if il then zero_match_cost c else 0) \<le> mbits (sp ! p)"
  shows "lzop_encode c data sp (b, il) p lpos =
     ebind (emit b ((if il then match_block c 0 0 else []) @
                    len_field (max_llen c)
                      (if llen (sp ! p) > max_llen c then max_llen c else llen (sp ! p)) @
                    [data ! p]))
       (\<lambda>b4. Inr ((b4, True),
          int p + (if llen (sp ! p) > max_llen c then max_llen c else llen (sp ! p)) - 1))"
proof (cases il)
  case True
  with assms show ?thesis
    unfolding lzop_encode_def
    by (simp add: Let_def len_header_emit code_match_emit add_byte_emit ebind_emit)
next
  case False
  with assms show ?thesis
    unfolding lzop_encode_def
    by (simp add: Let_def len_header_emit add_byte_emit ebind_emit ebind_Inr)
qed

lemma lzop_encode_match:
  assumes "\<not> int p \<le> lpos" and "length b \<le> 65536"
    and "\<not> lbits (sp ! p) + (if il then zero_match_cost c else 0) \<le> mbits (sp ! p)"
  shows "lzop_encode c data sp (b, il) p lpos =
     ebind (emit b ((if \<not> il then [0] else []) @
                    match_block c (mlen (sp ! p)) (enc_offset c p (mpos (sp ! p)))))
       (\<lambda>b2. Inr ((b2, False), int p + mlen (sp ! p) - 1))"
proof (cases il)
  case True
  with assms show ?thesis
    unfolding lzop_encode_def
    by (simp add: Let_def enc_offset_def code_match_emit ebind_emit ebind_Inr)
next
  case False
  with assms show ?thesis
    unfolding lzop_encode_def
    by (simp add: Let_def enc_offset_def code_match_emit add_byte_emit ebind_emit)
qed

lemma skip_literal:
  "p + k \<le> length data \<Longrightarrow> length b \<le> 65536 \<Longrightarrow>
     encode_loop c data sp p ((b, True), int p + int k - 1) =
       ebind (emit b (take k (drop p data)))
         (\<lambda>b'. encode_loop c data sp (p + k) ((b', True), int p + int k - 1))"
proof (induction k arbitrary: p b)
  case 0
  then show ?case by (simp add: ebind_emit)
next
  case (Suc k)
  then have lt: "p < length data" by simp
  have t: "take (Suc k) (drop p data) = data ! p # take k (drop (Suc p) data)"
    using lt by (simp add: take_Suc_conv_app_nth Cons_nth_drop_Suc [symmetric])
  have lp: "int p + int (Suc k) - 1 = int (Suc p) + int k - 1" by simp
  have le: "Suc p + k \<le> length data" using Suc.prems by simp
  have step: "encode_loop c data sp p ((b, True), int (Suc p) + int k - 1) =
      (if length b + 1 \<le> 65536
       then encode_loop c data sp (Suc p) ((b @ [data ! p], True), int (Suc p) + int k - 1)
       else Inl BufferOverflow)"
    using lt by (subst encode_loop.simps) (simp add: lzop_encode_skip_literal ebind_emit ebind_Inr ebind_Inl)
  show ?case
  proof (cases "length b + 1 \<le> 65536")
    case True
    then have "length (b @ [data ! p]) \<le> 65536" by simp
    from Suc.IH [OF le this] True show ?thesis
      unfolding lp step t by (simp add: ebind_emit)
  next
    case False
    then show ?thesis
      unfolding lp step t by (simp add: ebind_emit)
  qed
qed

lemma skip_match:
  "p + k \<le> length data \<Longrightarrow>
     encode_loop c data sp p ((b, False), int p + int k - 1) =
       encode_loop c data sp (p + k) ((b, False), int p + int k - 1)"
proof (induction k arbitrary: p)
  case 0
  then show ?case by simp
next
  case (Suc k)
  then have lt: "p < length data" by simp
  have lp: "int p + int (Suc k) - 1 = int (Suc p) + int k - 1" by simp
  have le: "Suc p + k \<le> length data" using Suc.prems by simp
  have step: "encode_loop c data sp p ((b, False), int (Suc p) + int k - 1) =
       encode_loop c data sp (Suc p) ((b, False), int (Suc p) + int k - 1)"
    using lt by (subst encode_loop.simps) (simp add: lzop_encode_skip_match ebind_Inr)
  from Suc.IH [OF le] show ?case
    unfolding lp step by simp
qed

lemma zero_match_cost_range:
  assumes "check_options c"
  shows "8 \<le> zero_match_cost c" "zero_match_cost c \<le> 24"
proof -
  note b = check_options_bounds [OF assms]
  have m: "mlen_cost c 0 = 8" using b by (simp add: mlen_cost_def)
  have "1 \<le> max_off c" using b by (simp add: max_off_eq)
  then have "moff_cost c 1 = 0 \<or> moff_cost c 1 = 8 \<or> moff_cost c 1 = 16"
    by (simp add: moff_cost_def)
  with m show "8 \<le> zero_match_cost c" "zero_match_cost c \<le> 24"
    by (auto simp add: zero_match_cost_def)
qed

lemma wire_zero_literal: "wire c (Literal []) = [0]"
  by (simp add: len_field_def)

lemma encode_loop_end:
  "\<not> p < length data \<Longrightarrow> encode_loop c data sp p st = Inr st"
  by (subst encode_loop.simps) simp

lemma encode_loop_step:
  "p < length data \<Longrightarrow> encode_loop c data sp p st =
     ebind (lzop_encode c data sp (fst st) p (snd st)) (encode_loop c data sp (p + 1))"
  by (subst encode_loop.simps) simp

lemma enc_blocks_end: "\<not> p < length data \<Longrightarrow> enc_blocks c data sp p il = []"
  by (subst enc_blocks.simps) simp

lemma enc_blocks_literal:
  assumes "p < length data"
    and "lbits (sp ! p) + (if il then zero_match_cost c else 0) \<le> mbits (sp ! p)"
  shows "enc_blocks c data sp p il =
     (if il then [Match 0 0] else []) @
     Literal (take (nat (if llen (sp ! p) > max_llen c then max_llen c else llen (sp ! p)))
                   (drop p data)) #
     enc_blocks c data sp
       (p + max 1 (nat (if llen (sp ! p) > max_llen c then max_llen c else llen (sp ! p)))) True"
  using assms by (subst enc_blocks.simps) (simp add: Let_def)

lemma enc_blocks_match:
  assumes "p < length data"
    and "\<not> lbits (sp ! p) + (if il then zero_match_cost c else 0) \<le> mbits (sp ! p)"
  shows "enc_blocks c data sp p il =
     (if \<not> il then [Literal []] else []) @
     Match (mlen (sp ! p)) (enc_offset c p (mpos (sp ! p))) #
     enc_blocks c data sp (p + max 1 (nat (mlen (sp ! p)))) False"
  using assms by (subst enc_blocks.simps) (simp add: Let_def)

text \<open>What a good cell gives when the emitter chooses a literal, and when it chooses a match.\<close>

lemma literal_choice:
  assumes v: "check_options c" and g: "good_cell c data sp p" and lt: "p < length data"
  defines "len \<equiv> (if llen (sp ! p) > max_llen c then max_llen c else llen (sp ! p))"
  shows "1 \<le> len" "len \<le> max_llen c" "p + nat len \<le> length data"
proof -
  note b = check_options_bounds [OF v]
  from g have l: "1 \<le> llen (sp ! p)" "int p + llen (sp ! p) \<le> int (length data)"
    by (simp_all add: good_cell_def)
  show "1 \<le> len" using l b by (simp add: len_def)
  show "len \<le> max_llen c" by (simp add: len_def)
  have "len \<le> llen (sp ! p)" by (simp add: len_def)
  with l show "p + nat len \<le> length data" by linarith
qed

lemma match_choice:
  assumes v: "check_options c" and g: "good_cell c data sp p"
    and ch: "\<not> lbits (sp ! p) + (if il then zero_match_cost c else 0) \<le> mbits (sp ! p)"
  shows "1 \<le> mlen (sp ! p)" "mlen (sp ! p) \<le> max_mlen c"
    "p + nat (mlen (sp ! p)) \<le> length data"
    "1 \<le> mpos (sp ! p)" "mpos (sp ! p) \<le> int p" "mpos (sp ! p) \<le> max_off c"
    "\<forall>j < nat (mlen (sp ! p)). data ! (p + j) = data ! (p - nat (mpos (sp ! p)) + j)"
proof -
  from zero_match_cost_range [OF v] have "(if il then zero_match_cost c else 0) \<le> zero_match_cost c"
    by simp
  moreover from g have "lbits (sp ! p) + zero_match_cost c \<le> INFINITE_COST"
    by (simp add: good_cell_def)
  ultimately have "mbits (sp ! p) < INFINITE_COST" using ch by linarith
  with g have m: "1 \<le> mlen (sp ! p) \<and> mlen (sp ! p) \<le> max_mlen c \<and>
        int p + mlen (sp ! p) \<le> int (length data) \<and>
        1 \<le> mpos (sp ! p) \<and> mpos (sp ! p) \<le> int p \<and> mpos (sp ! p) \<le> max_off c \<and>
        (\<forall>j < nat (mlen (sp ! p)). data ! (p + j) = data ! (p - nat (mpos (sp ! p)) + j))"
    by (simp add: good_cell_def)
  then show "1 \<le> mlen (sp ! p)" "mlen (sp ! p) \<le> max_mlen c"
    "1 \<le> mpos (sp ! p)" "mpos (sp ! p) \<le> int p" "mpos (sp ! p) \<le> max_off c"
    "\<forall>j < nat (mlen (sp ! p)). data ! (p + j) = data ! (p - nat (mpos (sp ! p)) + j)"
    by blast+
  from m show "p + nat (mlen (sp ! p)) \<le> length data" by linarith
qed

lemma encode_loop_stream:
  assumes v: "check_options c" and gt: "good_table c data sp"
  shows "p \<le> length data \<Longrightarrow> length b \<le> 65536 \<Longrightarrow>
     ebind (encode_loop c data sp p ((b, il), int p - 1)) (\<lambda>st. Inr (fst (fst st)))
       = emit b (stream c (enc_blocks c data sp p il))"
proof (induction "length data - p" arbitrary: p il b rule: less_induct)
  case less
  show ?case
  proof (cases "p < length data")
    case False
    with less.prems show ?thesis
      by (simp add: encode_loop_end enc_blocks_end stream_Nil ebind_Inr emit_def)
  next
    case lt: True
    with gt have g: "good_cell c data sp p" by (simp add: good_table_def)
    have ns: "\<not> int p \<le> int p - 1" by simp
    show ?thesis
    proof (cases "lbits (sp ! p) + (if il then zero_match_cost c else 0) \<le> mbits (sp ! p)")
      case lit: True
      define len where "len = (if llen (sp ! p) > max_llen c then max_llen c else llen (sp ! p))"
      from literal_choice [OF v g lt] have len: "1 \<le> len" "len \<le> max_llen c"
        "p + nat len \<le> length data" by (simp_all add: len_def)
      define k where "k = nat len - 1"
      have nk: "nat len = Suc k" using len(1) by (simp add: k_def)
      define A where "A = (if il then match_block c 0 0 else []) @ len_field (max_llen c) len @ [data ! p]"
      define B where "B = take k (drop (Suc p) data)"
      define R where "R = stream c (enc_blocks c data sp (p + nat len) True)"
      have tk: "take (nat len) (drop p data) = data ! p # B"
        using lt by (simp add: nk B_def take_Suc_conv_app_nth Cons_nth_drop_Suc [symmetric])
      have lentk: "int (length (take (nat len) (drop p data))) = len"
        using len by simp
      have mx: "max 1 (nat len) = nat len" "max (Suc 0) (nat len) = nat len" using nk by simp_all
      have S: "stream c (enc_blocks c data sp p il) = A @ B @ R"
        using lentk
        by (simp add: enc_blocks_literal [OF lt lit] len_def [symmetric] stream_append stream_Cons
            stream_Nil A_def R_def tk mx)
      have lp: "int p + len - 1 = int (Suc p) + int k - 1" using len(1) by (simp add: k_def)
      have E: "lzop_encode c data sp (b, il) p (int p - 1) =
           ebind (emit b A) (\<lambda>b4. Inr ((b4, True), int (Suc p) + int k - 1))"
        using lzop_encode_literal [OF ns less.prems(2) lit]
        by (simp add: len_def [symmetric] A_def lp)
      have le2: "Suc p + k \<le> length data" using len(3) nk by simp
      have p': "Suc p + k = p + nat len" using nk by simp
      have lp': "int (Suc p) + int k - 1 = int (p + nat len) - 1" using nk by simp
      show ?thesis
      proof (cases "length b + length A \<le> 65536")
        case fitA: True
        then have lA: "length (b @ A) \<le> 65536" by simp
        have sk: "encode_loop c data sp (Suc p) ((b @ A, True), int (Suc p) + int k - 1) =
            ebind (emit (b @ A) B)
              (\<lambda>b'. encode_loop c data sp (Suc p + k) ((b', True), int (Suc p) + int k - 1))"
          unfolding B_def by (rule skip_literal [OF le2 lA])
        have 1: "ebind (encode_loop c data sp p ((b, il), int p - 1)) (\<lambda>st. Inr (fst (fst st)))
             = ebind (encode_loop c data sp (Suc p) ((b @ A, True), int (Suc p) + int k - 1))
                 (\<lambda>st. Inr (fst (fst st)))"
          using fitA by (simp add: encode_loop_step [OF lt] E ebind_emit ebind_Inr)
        show ?thesis
        proof (cases "length (b @ A) + length B \<le> 65536")
          case fitB: True
          then have lB: "length ((b @ A) @ B) \<le> 65536" by simp
          have d: "length data - (p + nat len) < length data - p" using lt len(1) by linarith
          have 2: "ebind (encode_loop c data sp (Suc p) ((b @ A, True), int (Suc p) + int k - 1))
                 (\<lambda>st. Inr (fst (fst st)))
             = ebind (encode_loop c data sp (p + nat len) (((b @ A) @ B, True), int (p + nat len) - 1))
                 (\<lambda>st. Inr (fst (fst st)))"
          proof -
            have "ebind (encode_loop c data sp (Suc p) ((b @ A, True), int (Suc p) + int k - 1))
                    (\<lambda>st. Inr (fst (fst st)))
                = ebind (ebind (emit (b @ A) B)
                    (\<lambda>b'. encode_loop c data sp (Suc p + k) ((b', True), int (Suc p) + int k - 1)))
                    (\<lambda>st. Inr (fst (fst st)))"
              by (simp only: sk)
            also have "\<dots> = ebind (encode_loop c data sp (Suc p + k)
                    (((b @ A) @ B, True), int (Suc p) + int k - 1)) (\<lambda>st. Inr (fst (fst st)))"
              using fitB by (simp only: ebind_emit if_True)
            finally show ?thesis by (simp only: p' lp')
          qed
          from less.hyps [OF d len(3) lB, of True] fitA fitB show ?thesis
            unfolding 1 2 S R_def by (simp add: emit_def)
        next
          case False
          then have "ebind (encode_loop c data sp (Suc p) ((b @ A, True), int (Suc p) + int k - 1))
                 (\<lambda>st. Inr (fst (fst st))) = Inl BufferOverflow"
            by (simp only: sk ebind_emit if_False ebind_Inl)
          with False show ?thesis
            unfolding 1 S by (simp add: emit_def)
        qed
      next
        case False
        then show ?thesis
          by (simp add: encode_loop_step [OF lt] E ebind_emit ebind_Inl S emit_def)
      qed
    next
      case mat: False
      note m = match_choice [OF v g mat]
      define ml where "ml = mlen (sp ! p)"
      define k where "k = nat ml - 1"
      have nk: "nat ml = Suc k" using m(1) by (simp add: k_def ml_def)
      define A where "A = (if \<not> il then [0] else []) @ match_block c ml (enc_offset c p (mpos (sp ! p)))"
      define R where "R = stream c (enc_blocks c data sp (p + nat ml) False)"
      have mx: "max 1 (nat ml) = nat ml" "max (Suc 0) (nat ml) = nat ml" using nk by simp_all
      have S: "stream c (enc_blocks c data sp p il) = A @ R"
        by (simp add: enc_blocks_match [OF lt mat] ml_def [symmetric] stream_append stream_Cons
            stream_Nil A_def R_def mx len_field_def)
      have lp: "int p + ml - 1 = int (Suc p) + int k - 1" using m(1) by (simp add: k_def ml_def)
      have E: "lzop_encode c data sp (b, il) p (int p - 1) =
           ebind (emit b A) (\<lambda>b2. Inr ((b2, False), int (Suc p) + int k - 1))"
        using lzop_encode_match [OF ns less.prems(2) mat]
        by (simp add: ml_def [symmetric] A_def lp)
      have le2: "Suc p + k \<le> length data" using m(3) nk by (simp add: ml_def)
      have le3: "p + nat ml \<le> length data" using m(3) by (simp add: ml_def)
      have p': "Suc p + k = p + nat ml" using nk by simp
      have lp': "int (Suc p) + int k - 1 = int (p + nat ml) - 1" using nk by simp
      show ?thesis
      proof (cases "length b + length A \<le> 65536")
        case fitA: True
        then have lA: "length (b @ A) \<le> 65536" by simp
        have sk: "encode_loop c data sp (Suc p) ((b @ A, False), int (Suc p) + int k - 1) =
            encode_loop c data sp (Suc p + k) ((b @ A, False), int (Suc p) + int k - 1)"
          by (rule skip_match [OF le2])
        have 0: "ebind (encode_loop c data sp p ((b, il), int p - 1)) (\<lambda>st. Inr (fst (fst st)))
             = ebind (encode_loop c data sp (Suc p) ((b @ A, False), int (Suc p) + int k - 1))
                 (\<lambda>st. Inr (fst (fst st)))"
          using fitA by (simp add: encode_loop_step [OF lt] E ebind_emit ebind_Inr)
        have 1: "ebind (encode_loop c data sp p ((b, il), int p - 1)) (\<lambda>st. Inr (fst (fst st)))
             = ebind (encode_loop c data sp (p + nat ml) ((b @ A, False), int (p + nat ml) - 1))
                 (\<lambda>st. Inr (fst (fst st)))"
          unfolding 0 sk by (simp only: p' lp')
        have d: "length data - (p + nat ml) < length data - p" using lt nk by linarith
        from less.hyps [OF d le3 lA, of False] fitA show ?thesis
          unfolding 1 S R_def by (simp add: emit_def)
      next
        case False
        then show ?thesis
          by (simp add: encode_loop_step [OF lt] E ebind_emit ebind_Inl S emit_def)
      qed
    qed
  qed
qed

lemma enc_blocks_ok:
  assumes v: "check_options c" and gt: "good_table c data sp"
  shows "p \<le> length data \<Longrightarrow>
     blocks_ok c data il p (enc_blocks c data sp p il) \<and>
     alternates il (enc_blocks c data sp p il) \<and>
     end_pos p (enc_blocks c data sp p il) = length data \<and>
     (enc_blocks c data sp p il \<noteq> [] \<longrightarrow> 0 < block_len (last (enc_blocks c data sp p il)))"
proof (induction "length data - p" arbitrary: p il rule: less_induct)
  case less
  note b = check_options_bounds [OF v]
  show ?case
  proof (cases "p < length data")
    case False
    with less.prems show ?thesis
      by (simp add: enc_blocks_end)
  next
    case lt: True
    with gt have g: "good_cell c data sp p" by (simp add: good_table_def)
    show ?thesis
    proof (cases "lbits (sp ! p) + (if il then zero_match_cost c else 0) \<le> mbits (sp ! p)")
      case lit: True
      define len where "len = (if llen (sp ! p) > max_llen c then max_llen c else llen (sp ! p))"
      from literal_choice [OF v g lt] have len: "1 \<le> len" "len \<le> max_llen c"
        "p + nat len \<le> length data" by (simp_all add: len_def)
      define xs where "xs = take (nat len) (drop p data)"
      define rest where "rest = enc_blocks c data sp (p + nat len) True"
      have lx: "length xs = nat len" using len(3) by (simp add: xs_def)
      have mx: "max 1 (nat len) = nat len" "max (Suc 0) (nat len) = nat len"
        using len(1) by simp_all
      have E: "enc_blocks c data sp p il = (if il then [Match 0 0] else []) @ Literal xs # rest"
        by (simp add: enc_blocks_literal [OF lt lit] len_def [symmetric] xs_def rest_def mx)
      have d: "length data - (p + nat len) < length data - p" using lt len(1) by linarith
      from less.hyps [OF d len(3), of True] have ih:
        "blocks_ok c data True (p + nat len) rest" "alternates True rest"
        "end_pos (p + nat len) rest = length data"
        "rest \<noteq> [] \<longrightarrow> 0 < block_len (last rest)"
        by (simp_all add: rest_def)
      have xt: "xs = take (length xs) (drop p data)" unfolding lx by (simp add: xs_def)
      have lit_ok: "blocks_ok c data False p (Literal xs # rest)"
        using len ih(1) lx xt by simp
      have 1: "blocks_ok c data il p (enc_blocks c data sp p il)"
        unfolding E using lit_ok b(1) less.prems by (cases il) simp_all
      have 2: "alternates il (enc_blocks c data sp p il)"
        unfolding E using ih(2) by (cases il) simp_all
      have 3: "end_pos p (enc_blocks c data sp p il) = length data"
        unfolding E using ih(3) lx by (cases il) simp_all
      have 4: "0 < block_len (last (enc_blocks c data sp p il))"
        unfolding E using ih(4) lx len(1) by (cases "rest = []") simp_all
      from 1 2 3 4 show ?thesis by blast
    next
      case mat: False
      note m = match_choice [OF v g mat]
      define ml where "ml = mlen (sp ! p)"
      define e where "e = enc_offset c p (mpos (sp ! p))"
      define rest where "rest = enc_blocks c data sp (p + nat ml) False"
      have mx: "max 1 (nat ml) = nat ml" "max (Suc 0) (nat ml) = nat ml"
        using m(1) by (simp_all add: ml_def)
      have E: "enc_blocks c data sp p il = (if \<not> il then [Literal []] else []) @ Match ml e # rest"
        by (simp add: enc_blocks_match [OF lt mat] ml_def [symmetric] e_def rest_def mx)
      have le3: "p + nat ml \<le> length data" using m(3) by (simp add: ml_def)
      have d: "length data - (p + nat ml) < length data - p" using lt m(1) by (simp add: ml_def)
      from less.hyps [OF d le3, of False] have ih:
        "blocks_ok c data False (p + nat ml) rest" "alternates False rest"
        "end_pos (p + nat ml) rest = length data"
        "rest \<noteq> [] \<longrightarrow> 0 < block_len (last rest)"
        by (simp_all add: rest_def)
      have dist: "\<exists>d. 1 \<le> d \<and> d \<le> p \<and> int d \<le> max_off c \<and> e = enc_offset c p (int d) \<and>
                      (\<forall>j < nat ml. data ! (p + j) = data ! (p - d + j))"
      proof (intro exI [of _ "nat (mpos (sp ! p))"] conjI)
        show "1 \<le> nat (mpos (sp ! p))" using m(4) by linarith
        show "nat (mpos (sp ! p)) \<le> p" using m(4,5) by linarith
        show "int (nat (mpos (sp ! p))) \<le> max_off c" using m(4,6) by simp
        show "e = enc_offset c p (int (nat (mpos (sp ! p))))" using m(4) by (simp add: e_def)
        show "\<forall>j < nat ml. data ! (p + j) = data ! (p - nat (mpos (sp ! p)) + j)"
          using m(7) by (simp add: ml_def)
      qed
      have mat_ok: "blocks_ok c data True p (Match ml e # rest)"
        using m(1,2) le3 dist ih(1) by (simp add: ml_def)
      have 1: "blocks_ok c data il p (enc_blocks c data sp p il)"
        unfolding E using mat_ok b(3) less.prems by (cases il) simp_all
      have 2: "alternates il (enc_blocks c data sp p il)"
        unfolding E using ih(2) by (cases il) simp_all
      have 3: "end_pos p (enc_blocks c data sp p il) = length data"
        unfolding E using ih(3) by (cases il) simp_all
      have 4: "0 < block_len (last (enc_blocks c data sp p il))"
        unfolding E using ih(4) m(1) by (cases "rest = []") (simp_all add: ml_def)
      from 1 2 3 4 show ?thesis by blast
    qed
  qed
qed

section \<open>The table built by the backward pass\<close>

lemma llen_cost_loop_next:
  "1 \<le> l \<Longrightarrow> 1 \<le> max_llen c \<Longrightarrow>
     1 \<le> fst (llen_cost_loop c l bits) \<and> fst (llen_cost_loop c l bits) \<le> max_llen c \<and>
     llen_cost_loop c (l + 1) bits =
       (if fst (llen_cost_loop c l bits) < max_llen c
        then (fst (llen_cost_loop c l bits) + 1, snd (llen_cost_loop c l bits))
        else (1, snd (llen_cost_loop c l bits) + (8 + zero_match_cost c)))"
proof (induction c l bits rule: llen_cost_loop.induct)
  case (1 c l bits)
  show ?case
  proof (cases "l > max_llen c")
    case True
    with "1.prems" have a: "llen_cost_loop c l bits =
        llen_cost_loop c (l - max_llen c) (bits + (8 + zero_match_cost c))"
      by (subst llen_cost_loop.simps) simp
    from True "1.prems" have b: "llen_cost_loop c (l + 1) bits =
        llen_cost_loop c (l - max_llen c + 1) (bits + (8 + zero_match_cost c))"
      by (subst llen_cost_loop.simps) (simp add: algebra_simps)
    from True "1.prems" have "l > max_llen c \<and> 0 < max_llen c" "1 \<le> l - max_llen c" by simp_all
    from "1.IH" [OF this(1) this(2) "1.prems"(2)] show ?thesis
      unfolding a b by simp
  next
    case False
    then have a: "llen_cost_loop c l bits = (l, bits)"
      by (subst llen_cost_loop.simps) simp
    show ?thesis
    proof (cases "l < max_llen c")
      case True
      then have "llen_cost_loop c (l + 1) bits = (l + 1, bits)"
        by (subst llen_cost_loop.simps) simp
      with True "1.prems" a show ?thesis by simp
    next
      case eq: False
      with False have e: "l = max_llen c" by simp
      have "llen_cost_loop c (l + 1) bits
              = llen_cost_loop c 1 (bits + (8 + zero_match_cost c))"
        using "1.prems" e by (subst llen_cost_loop.simps) simp
      also have "\<dots> = (1, bits + (8 + zero_match_cost c))"
        using "1.prems" by (subst llen_cost_loop.simps) simp
      finally show ?thesis using e "1.prems" a by simp
    qed
  qed
qed

lemma llen_cost_step:
  assumes v: "check_options c" and l: "0 \<le> l"
  shows "llen_cost c (l + 1) \<le> llen_cost c l + 8 + zero_match_cost c"
proof -
  note b = check_options_bounds [OF v]
  note z = zero_match_cost_range [OF v]
  show ?thesis
  proof (cases "l = 0")
    case True
    have "llen_cost_loop c 1 0 = (1, 0)"
      using b by (subst llen_cost_loop.simps) simp
    with True z show ?thesis by (simp add: llen_cost_def)
  next
    case False
    with l have l1: "1 \<le> l" by simp
    obtain l1 b1 where r: "llen_cost_loop c l 0 = (l1, b1)" by (cases "llen_cost_loop c l 0")
    from llen_cost_loop_next [OF l1 b(3), of 0] r
    have n: "1 \<le> l1" "l1 \<le> max_llen c"
      "llen_cost_loop c (l + 1) 0 =
         (if l1 < max_llen c then (l1 + 1, b1) else (1, b1 + (8 + zero_match_cost c)))"
      by simp_all
    from l1 have ne: "l \<noteq> 0" "l + 1 \<noteq> 0" by simp_all
    show ?thesis
      using z n by (auto simp add: llen_cost_def ne r)
  qed
qed

lemma first_literal_bound:
  assumes v: "check_options c" and n: "cell_inv c data (Suc p) nxt" and lt: "p < length data"
  shows "lbits nxt + 8 * int 1 - llen_cost c (llen nxt) + llen_cost c (llen nxt + int 1)
           \<le> 40 * (int (length data) - int p)"
proof -
  from n have a: "0 \<le> llen nxt" "lbits nxt \<le> 40 * (int (length data) - int (Suc p))"
    by (simp_all add: cell_inv_def)
  from llen_cost_step [OF v a(1)] zero_match_cost_range [OF v]
  have "llen_cost c (llen nxt + 1) - llen_cost c (llen nxt) \<le> 32" by simp
  with a(2) show ?thesis by simp
qed

lemma backfill_lit_inv:
  assumes v: "check_options c"
    and later: "\<forall>q. p < q \<and> q \<le> length data \<longrightarrow> cell_inv c data q (sp ! q)"
  shows "1 \<le> i \<Longrightarrow> 0 \<le> ml \<Longrightarrow> int p + ml \<le> int (length data) \<Longrightarrow>
     0 \<le> llen cur \<Longrightarrow> int p + llen cur \<le> int (length data) \<Longrightarrow>
     (lbits cur \<le> 40 * (int (length data) - int p) \<longrightarrow> 1 \<le> llen cur) \<Longrightarrow>
     (2 \<le> i \<longrightarrow> lbits cur \<le> 40 * (int (length data) - int p)) \<Longrightarrow>
     backfill_lit c sp (length data) p i (ml, cur) = (ml', cur') \<Longrightarrow>
     0 \<le> ml' \<and> int p + ml' \<le> int (length data) \<and>
     0 \<le> llen cur' \<and> int p + llen cur' \<le> int (length data) \<and>
     (lbits cur' \<le> 40 * (int (length data) - int p) \<longrightarrow> 1 \<le> llen cur') \<and>
     ((2 \<le> i \<or> p + i \<le> length data) \<longrightarrow> lbits cur' \<le> 40 * (int (length data) - int p))"
proof (induction "6 - i" arbitrary: i ml cur rule: less_induct)
  case less
  let ?B = "40 * (int (length data) - int p)"
  show ?case
  proof (cases "i < 6 \<and> \<not> p + i > length data")
    case False
    then have "backfill_lit c sp (length data) p i (ml, cur) = (ml, cur)"
      by (subst backfill_lit.simps) auto
    with less.prems False show ?thesis by auto
  next
    case True
    then have i6: "i < 6" and le: "p + i \<le> length data" by simp_all
    define nxt where "nxt = sp ! (p + i)"
    define ml1 where "ml1 = (if ml < llen nxt + int i then llen nxt + int i else ml)"
    define lb where "lb = lbits nxt + 8 * int i - llen_cost c (llen nxt) + llen_cost c (llen nxt + int i)"
    define cur1 where "cur1 = (if lb < lbits cur then cur\<lparr> lbits := lb, llen := llen nxt + int i \<rparr> else cur)"
    have step: "backfill_lit c sp (length data) p i (ml, cur)
                  = backfill_lit c sp (length data) p (i + 1) (ml1, cur1)"
      using i6 le
      by (subst backfill_lit.simps) (simp add: Let_def nxt_def ml1_def lb_def cur1_def)
    from later less.prems(1) le have ci: "cell_inv c data (p + i) nxt"
      by (simp add: nxt_def)
    then have nx: "0 \<le> llen nxt" "int (p + i) + llen nxt \<le> int (length data)"
      by (simp_all add: cell_inv_def)
    have a1: "0 \<le> ml1" using less.prems(2) nx(1) by (simp add: ml1_def)
    have a2: "int p + ml1 \<le> int (length data)" using less.prems(3) nx(2) by (simp add: ml1_def)
    have a3: "0 \<le> llen cur1" using less.prems(4) nx(1) by (simp add: cur1_def)
    have a4: "int p + llen cur1 \<le> int (length data)"
      using less.prems(5) nx(2) by (simp add: cur1_def)
    have a5: "lbits cur1 \<le> ?B \<longrightarrow> 1 \<le> llen cur1"
      using less.prems(6,1) nx(1) by (simp add: cur1_def)
    have a6: "lbits cur1 \<le> ?B"
    proof (cases "i = 1")
      case True
      have lt: "p < length data" using le less.prems(1) by simp
      from ci True have "cell_inv c data (Suc p) nxt" by simp
      from first_literal_bound [OF v this lt] True have "lb \<le> ?B" by (simp add: lb_def)
      then show ?thesis by (simp add: cur1_def)
    next
      case False
      with less.prems(1,7) have "lbits cur \<le> ?B" by simp
      then show ?thesis by (simp add: cur1_def)
    qed
    have d: "6 - (i + 1) < 6 - i" using i6 by simp
    have i1: "1 \<le> i + 1" by simp
    from less.hyps [OF d i1 a1 a2 a3 a4 a5 _ less.prems(8) [unfolded step]] a6 less.prems(1)
    show ?thesis by auto
  qed
qed

lemma backfill_litmatch_inv:
  "1 \<le> i \<Longrightarrow> int p + ml \<le> int (length data) \<Longrightarrow>
     1 \<le> llen cur \<Longrightarrow> int p + llen cur \<le> int (length data) \<Longrightarrow> lbits cur \<le> B \<Longrightarrow>
     1 \<le> llen (backfill_litmatch c sp p ml i cur) \<and>
     int p + llen (backfill_litmatch c sp p ml i cur) \<le> int (length data) \<and>
     lbits (backfill_litmatch c sp p ml i cur) \<le> B"
proof (induction "nat (ml + 1 - int i)" arbitrary: i cur rule: less_induct)
  case less
  show ?case
  proof (cases "int i \<le> ml - 1")
    case False
    then have "backfill_litmatch c sp p ml i cur = cur"
      by (subst backfill_litmatch.simps) simp
    with less.prems show ?thesis by simp
  next
    case True
    define nxt where "nxt = sp ! (p + i)"
    define mb where "mb = mbits nxt + 8 * int i + llen_cost c (int i)"
    define cur1 where "cur1 = (if mb < lbits cur then cur\<lparr> llen := int i, lbits := mb \<rparr> else cur)"
    have step: "backfill_litmatch c sp p ml i cur = backfill_litmatch c sp p ml (i + 1) cur1"
      using True
      by (subst backfill_litmatch.simps) (simp add: Let_def nxt_def mb_def cur1_def)
    have a1: "1 \<le> llen cur1" using less.prems(1,3) by (simp add: cur1_def)
    have a2: "int p + llen cur1 \<le> int (length data)"
      using less.prems(2,4) True by (simp add: cur1_def)
    have a3: "lbits cur1 \<le> B" using less.prems(5) by (simp add: cur1_def)
    have d: "nat (ml + 1 - int (i + 1)) < nat (ml + 1 - int i)" using True by simp
    have i1: "1 \<le> i + 1" by simp
    from less.hyps [OF d i1 less.prems(2) a1 a2 a3] show ?thesis
      unfolding step .
  qed
qed

lemma backfill_match_inv:
  "1 \<le> l \<Longrightarrow> (mbits cur < INFINITE_COST \<longrightarrow> 1 \<le> mlen cur \<and> mlen cur \<le> ml) \<Longrightarrow>
     backfill_match c sp p mp ml l (bestm, cur) = (bestm', cur') \<Longrightarrow>
     llen cur' = llen cur \<and> lbits cur' = lbits cur \<and> mpos cur' = mpos cur \<and>
     (mbits cur' < INFINITE_COST \<longrightarrow> 1 \<le> mlen cur' \<and> mlen cur' \<le> ml)"
proof (induction "nat (ml + 1 - int l)" arbitrary: l bestm cur rule: less_induct)
  case less
  show ?case
  proof (cases "int l \<le> ml")
    case False
    then have "backfill_match c sp p mp ml l (bestm, cur) = (bestm, cur)"
      by (subst backfill_match.simps) simp
    with less.prems show ?thesis by simp
  next
    case True
    define nxt where "nxt = sp ! (p + l)"
    define mb where "mb = mbits nxt + llen_cost c 1 + moff_cost c mp + mlen_cost c (int l)"
    define lb where "lb = lbits nxt + moff_cost c mp + mlen_cost c (int l)"
    define bestm1 where "bestm1 = (if lb \<le> bestm then lb else bestm)"
    define cur1 where "cur1 = (if lb \<le> bestm then cur\<lparr> mlen := int l, mbits := lb \<rparr> else cur)"
    define bestm2 where "bestm2 = (if mb \<le> bestm1 then mb else bestm1)"
    define cur2 where "cur2 = (if mb \<le> bestm1 then cur1\<lparr> mlen := int l, mbits := mb \<rparr> else cur1)"
    have step: "backfill_match c sp p mp ml l (bestm, cur)
                  = backfill_match c sp p mp ml (l + 1) (bestm2, cur2)"
      using True
      by (subst backfill_match.simps)
         (simp add: Let_def nxt_def mb_def lb_def bestm1_def cur1_def bestm2_def cur2_def)
    have f: "llen cur2 = llen cur" "lbits cur2 = lbits cur" "mpos cur2 = mpos cur"
      by (simp_all add: cur2_def cur1_def)
    have m: "mbits cur2 < INFINITE_COST \<longrightarrow> 1 \<le> mlen cur2 \<and> mlen cur2 \<le> ml"
      using less.prems(1,2) True by (simp add: cur2_def cur1_def)
    have d: "nat (ml + 1 - int (l + 1)) < nat (ml + 1 - int l)" using True by simp
    have l1: "1 \<le> l + 1" by simp
    from less.hyps [OF d l1 m less.prems(3) [unfolded step]] f show ?thesis by simp
  qed
qed

lemma match_result:
  assumes "pos \<le> length data" and "1 \<le> max_mlen c"
    and "match c data pos (length data) 0 = (ml, mp)" and "0 < ml"
  shows "ml \<le> max_mlen c \<and> int pos + ml \<le> int (length data) \<and>
         1 \<le> mp \<and> mp \<le> int pos \<and> mp \<le> max_off c \<and>
         (\<forall>j < nat ml. data ! (pos + j) = data ! (pos - nat mp + j))"
proof -
  let ?cap = "match_cap c (length data) pos"
  have cap: "- max (- max_mlen c) (int pos - int (length data)) = ?cap"
    by (simp add: match_cap_def min_def max_def)
  have nn: "0 \<le> ?cap"
    using assms(1,2) by (simp add: match_cap_def)
  from assms(3) have
    m: "match_loop data pos ?cap (window_start c pos) 0 0 = (ml, mp)"
    by (simp add: match_def Let_def cap window_start_def)
  from match_loop_spec [OF nn m] assms(4)
  obtain i where i: "window_start c pos \<le> i" "i < pos"
    "get_mlen data pos i ?cap 0 = ml" "mp = int pos - int i" by auto
  from get_mlen_capped [OF nn, of data pos i] i(3)
  have cp: "ml \<le> ?cap" "\<forall>k < nat ml. data ! (pos + k) = data ! (i + k)"
    by (simp_all add: capped_prefix_def)
  have w: "int pos - max_off c \<le> int i"
    using i(1) by (simp add: window_start_def)
  have pi: "pos - nat mp = i" using i(2,4) by simp
  from cp(1) have "ml \<le> max_mlen c" "int pos + ml \<le> int (length data)"
    by (simp_all add: match_cap_def)
  moreover have "1 \<le> mp" "mp \<le> int pos" "mp \<le> max_off c" using i(2,4) w by simp_all
  ultimately show ?thesis using cp(2) pi by simp
qed

lemma backfill_step_inv:
  assumes v: "check_options c" and n: "length data \<le> 131072" and lt: "p < length data"
    and later: "\<forall>q. p < q \<and> q \<le> length data \<longrightarrow> cell_inv c data q (sp ! q)"
  shows "cell_inv c data p (backfill_step c data sp p)"
proof -
  note b = check_options_bounds [OF v]
  let ?B = "40 * (int (length data) - int p)"
  have B: "?B < INFINITE_COST" using n by (simp add: INFINITE_COST_def)
  define cur0 where "cur0 = (sp ! p)\<lparr> lbits := INFINITE_COST, llen := 0 \<rparr>"
  obtain ml cur1 where r1: "backfill_lit c sp (length data) p 1 (0, cur0) = (ml, cur1)"
    by (cases "backfill_lit c sp (length data) p 1 (0, cur0)")
  define cur2 where "cur2 = backfill_litmatch c sp p ml 1 cur1"
  obtain ml2 mp where r2: "match c data p (length data) 0 = (ml2, mp)"
    by (cases "match c data p (length data) 0")
  define cur3 where "cur3 = cur2\<lparr> mbits := INFINITE_COST, mpos := mp \<rparr>"
  obtain bestm cur4 where
    r3': "backfill_match c sp p mp ml2 (nat min_mlen) (INFINITE_COST, cur3) = (bestm, cur4)"
    by (cases "backfill_match c sp p mp ml2 (nat min_mlen) (INFINITE_COST, cur3)")
  have nm: "nat min_mlen = 1" by (simp add: min_mlen_def)
  note r3 = r3' [unfolded nm]
  have res: "backfill_step c data sp p = cur4"
    by (simp add: backfill_step_def Let_def cur0_def [symmetric] r1 cur2_def [symmetric] r2
        cur3_def [symmetric] r3' del: One_nat_def)
  have "0 \<le> ml \<and> int p + ml \<le> int (length data) \<and>
     0 \<le> llen cur1 \<and> int p + llen cur1 \<le> int (length data) \<and>
     (lbits cur1 \<le> ?B \<longrightarrow> 1 \<le> llen cur1) \<and>
     ((2 \<le> (1::nat) \<or> p + 1 \<le> length data) \<longrightarrow> lbits cur1 \<le> ?B)"
  proof (rule backfill_lit_inv [OF v later _ _ _ _ _ _ _ r1])
    show "lbits cur0 \<le> ?B \<longrightarrow> 1 \<le> llen cur0" using B by (simp add: cur0_def)
  qed (use lt in \<open>simp_all add: cur0_def\<close>)
  with lt have s1: "int p + ml \<le> int (length data)" "1 \<le> llen cur1"
    "int p + llen cur1 \<le> int (length data)" "lbits cur1 \<le> ?B" by simp_all
  have one: "(1::nat) \<le> 1" by simp
  from backfill_litmatch_inv [OF one s1, of c sp]
  have s2: "1 \<le> llen cur2" "int p + llen cur2 \<le> int (length data)" "lbits cur2 \<le> ?B"
    by (simp_all add: cur2_def)
  have m3: "mbits cur3 < INFINITE_COST \<longrightarrow> 1 \<le> mlen cur3 \<and> mlen cur3 \<le> ml2"
    by (simp add: cur3_def)
  from backfill_match_inv [OF one m3 r3]
  have s4: "llen cur4 = llen cur2" "lbits cur4 = lbits cur2" "mpos cur4 = mp"
    "mbits cur4 < INFINITE_COST \<longrightarrow> 1 \<le> mlen cur4 \<and> mlen cur4 \<le> ml2"
    by (simp_all add: cur3_def)
  have mat: "1 \<le> mlen cur4 \<and> mlen cur4 \<le> max_mlen c \<and>
        int p + mlen cur4 \<le> int (length data) \<and>
        1 \<le> mpos cur4 \<and> mpos cur4 \<le> int p \<and> mpos cur4 \<le> max_off c \<and>
        (\<forall>j < nat (mlen cur4). data ! (p + j) = data ! (p - nat (mpos cur4) + j))"
    if fin: "mbits cur4 < INFINITE_COST"
  proof -
    from s4(4) fin have ml: "1 \<le> mlen cur4" "mlen cur4 \<le> ml2" by simp_all
    then have pos: "0 < ml2" by simp
    have ple: "p \<le> length data" using lt by simp
    from match_result [OF ple b(1) r2 pos] ml s4(3) show ?thesis by auto
  qed
  show ?thesis
    unfolding res cell_inv_def using s2 s4(1,2) mat lt by auto
qed

lemma backfill_loop_length: "length (backfill_loop c data n sp) = length sp"
  by (induction n arbitrary: sp) simp_all

lemma backfill_loop_inv:
  assumes v: "check_options c" and n: "length data \<le> 131072"
  shows "k \<le> length data \<Longrightarrow> length sp = length data + 1 \<Longrightarrow>
     \<forall>q. k \<le> q \<and> q \<le> length data \<longrightarrow> cell_inv c data q (sp ! q) \<Longrightarrow>
     \<forall>q. q \<le> length data \<longrightarrow> cell_inv c data q (backfill_loop c data k sp ! q)"
proof (induction k arbitrary: sp)
  case 0
  then show ?case by simp
next
  case (Suc k)
  let ?sp = "sp[k := backfill_step c data sp k]"
  have lt: "k < length data" using Suc.prems(1) by simp
  have later: "\<forall>q. k < q \<and> q \<le> length data \<longrightarrow> cell_inv c data q (sp ! q)"
    using Suc.prems(3) by simp
  have new: "cell_inv c data k (backfill_step c data sp k)"
    by (rule backfill_step_inv [OF v n lt later])
  have inv: "\<forall>q. k \<le> q \<and> q \<le> length data \<longrightarrow> cell_inv c data q (?sp ! q)"
  proof (intro allI impI)
    fix q assume q: "k \<le> q \<and> q \<le> length data"
    show "cell_inv c data q (?sp ! q)"
    proof (cases "q = k")
      case True
      with new lt Suc.prems(2) show ?thesis by simp
    next
      case False
      with q later show ?thesis by simp
    qed
  qed
  have "k \<le> length data" using lt by simp
  moreover have "length ?sp = length data + 1" using Suc.prems(2) by simp
  ultimately show ?case
    using Suc.IH [of ?sp] inv by simp
qed

lemma lzop_backfill_good:
  assumes v: "check_options c" and n: "length data \<le> 131072"
  shows "good_table c data (lzop_backfill c data)"
proof (cases "length data = 0")
  case True
  then show ?thesis by (simp add: good_table_def)
next
  case False
  let ?last = "\<lparr> lbits = 0, llen = 0, mbits = INFINITE_COST, mlen = 0, mpos = 0 \<rparr>"
  let ?sp = "(replicate (length data + 1) zero_st)[length data := ?last]"
  have e: "lzop_backfill c data = backfill_loop c data (length data) ?sp"
    using False by (simp add: lzop_backfill_def Let_def)
  have last: "?sp ! length data = ?last"
    by (rule nth_list_update_eq) simp
  have "cell_inv c data (length data) ?last"
    by (simp add: cell_inv_def)
  with last have init: "\<forall>q. length data \<le> q \<and> q \<le> length data \<longrightarrow> cell_inv c data q (?sp ! q)"
    by (metis order_antisym)
  have "\<forall>q. q \<le> length data \<longrightarrow> cell_inv c data q (lzop_backfill c data ! q)"
    unfolding e by (rule backfill_loop_inv [OF v n _ _ init]) (simp_all del: replicate.simps)
  then have ci: "cell_inv c data q (lzop_backfill c data ! q)" if "q < length data" for q
    using that by simp
  note z = zero_match_cost_range [OF v]
  show ?thesis
    unfolding good_table_def good_cell_def
  proof (intro allI impI)
    fix p assume p: "p < length data"
    from ci [OF p] have c1: "1 \<le> llen (lzop_backfill c data ! p)"
      "int p + llen (lzop_backfill c data ! p) \<le> int (length data)"
      "lbits (lzop_backfill c data ! p) \<le> 40 * (int (length data) - int p)"
      and c2: "mbits (lzop_backfill c data ! p) < INFINITE_COST \<longrightarrow>
        1 \<le> mlen (lzop_backfill c data ! p) \<and> mlen (lzop_backfill c data ! p) \<le> max_mlen c \<and>
        int p + mlen (lzop_backfill c data ! p) \<le> int (length data) \<and>
        1 \<le> mpos (lzop_backfill c data ! p) \<and> mpos (lzop_backfill c data ! p) \<le> int p \<and>
        mpos (lzop_backfill c data ! p) \<le> max_off c \<and>
        (\<forall>j < nat (mlen (lzop_backfill c data ! p)).
            data ! (p + j) = data ! (p - nat (mpos (lzop_backfill c data ! p)) + j))"
      using p by (simp_all add: cell_inv_def)
    have "lbits (lzop_backfill c data ! p) + zero_match_cost c \<le> INFINITE_COST"
      using c1(3) z(2) n by (simp add: INFINITE_COST_def)
    with c1 c2 show "1 \<le> llen (lzop_backfill c data ! p) \<and>
         int p + llen (lzop_backfill c data ! p) \<le> int (length data) \<and>
         lbits (lzop_backfill c data ! p) + zero_match_cost c \<le> INFINITE_COST \<and>
         (mbits (lzop_backfill c data ! p) < INFINITE_COST \<longrightarrow>
          1 \<le> mlen (lzop_backfill c data ! p) \<and>
          mlen (lzop_backfill c data ! p) \<le> max_mlen c \<and>
          int p + mlen (lzop_backfill c data ! p) \<le> int (length data) \<and>
          1 \<le> mpos (lzop_backfill c data ! p) \<and>
          mpos (lzop_backfill c data ! p) \<le> int p \<and>
          mpos (lzop_backfill c data ! p) \<le> max_off c \<and>
          (\<forall>j<nat (mlen (lzop_backfill c data ! p)).
              data ! (p + j) =
              data ! (p - nat (mpos (lzop_backfill c data ! p)) + j)))"
      by blast
  qed
qed

section \<open>Encoder and decoder together\<close>

lemma lz8s_stream:
  assumes v: "check_options c"
  shows "lz8s c input =
     emit [] (stream c (enc_blocks c (take 131072 input)
                          (lzop_backfill c (take 131072 input)) 0 False))"
proof -
  let ?data = "take 131072 input"
  have n: "length ?data \<le> 131072" by simp
  have gt: "good_table c ?data (lzop_backfill c ?data)"
    by (rule lzop_backfill_good [OF v n])
  from encode_loop_stream [OF v gt, of 0 "[]" False]
  have "ebind (encode_loop c ?data (lzop_backfill c ?data) 0 (([], False), - 1))
          (\<lambda>st. Inr (fst (fst st)))
        = emit [] (stream c (enc_blocks c ?data (lzop_backfill c ?data) 0 False))"
    by simp
  with v show ?thesis
    by (simp add: lz8s_def fread_def Let_def)
qed

lemma lz8s_blocks:
  assumes v: "check_options c" and r: "lz8s c input = Inr out"
  shows "\<exists>bs. out = stream c bs \<and> length out \<le> 65536 \<and>
              blocks_ok c (take 131072 input) False 0 bs \<and> alternates False bs \<and>
              end_pos 0 bs = length (take 131072 input) \<and>
              (bs \<noteq> [] \<longrightarrow> 0 < block_len (last bs))"
proof -
  let ?data = "take 131072 input"
  let ?bs = "enc_blocks c ?data (lzop_backfill c ?data) 0 False"
  have n: "length ?data \<le> 131072" by simp
  have gt: "good_table c ?data (lzop_backfill c ?data)"
    by (rule lzop_backfill_good [OF v n])
  from r have "out = stream c ?bs \<and> length out \<le> 65536"
    unfolding lz8s_stream [OF v] by (auto simp add: emit_def split: if_splits)
  moreover from enc_blocks_ok [OF v gt, of 0 False]
  have "blocks_ok c ?data False 0 ?bs \<and> alternates False ?bs \<and>
        end_pos 0 ?bs = length ?data \<and> (?bs \<noteq> [] \<longrightarrow> 0 < block_len (last ?bs))"
    by simp
  ultimately show ?thesis by blast
qed

lemma ring_ok_0: "ring_ok c data 0 buf"
  by (simp add: ring_ok_def)

lemma decode_phase_nil:
  "decode_phase il c buf p \<lparr>stdin = [], stdout = out, stderr = err\<rparr>
     = (p, \<lparr>stdin = [], stdout = out, stderr = err\<rparr>)"
  by (simp add: decode_phase_def decode_on_nil decode_match_on_nil)

text \<open>
  Round trip, for the inputs whose encoding fits the encoder's output buffer: if the
  encoder returns a stream for an input of at most 128 KiB, the decoder with the same
  configuration writes the input back, returns its length and prints no error.
\<close>

lemma roundtrip_when_encoded:
  assumes v: "valid_cfg c" and n: "length data \<le> 131072" and r: "lz8s c data = Inr out"
  shows "lz8dec c buf0 out = (int (length data), \<lparr>stdin = [], stdout = data, stderr = []\<rparr>)"
proof -
  from n have t: "take 131072 data = data" by simp
  from lz8s_blocks [OF valid_cfg_check [OF v] r] obtain bs where bs: "out = stream c bs"
    "blocks_ok c data False 0 bs" "end_pos 0 bs = length data"
    unfolding t by blast
  have n32: "length data < 2 ^ 32" using n by simp
  from decode_stream [OF v n32 bs(2) ring_ok_0, of buf0 "[]" "[]"]
  obtain buf' where
    "decode_phase False c buf0 0 \<lparr>stdin = stream c bs @ [], stdout = take 0 data, stderr = []\<rparr>
       = decode_phase (end_phase False bs) c buf' (end_pos 0 bs)
           \<lparr>stdin = [], stdout = take (end_pos 0 bs) data, stderr = []\<rparr>" by blast
  then have "decode c buf0 0 \<lparr>stdin = out, stdout = [], stderr = []\<rparr>
       = (length data, \<lparr>stdin = [], stdout = data, stderr = []\<rparr>)"
    by (simp add: decode_phase_nil bs(1,3)) (simp add: decode_phase_def)
  moreover have "as_int (length data) = int (length data)"
    using n by (simp add: as_int_def)
  ultimately show ?thesis by (simp add: lz8dec_def)
qed

text \<open>With \<open>max_mlen = 1\<close> the stream is at least as long as the data it describes.\<close>

lemma stream_length_ge:
  "max_mlen c = 1 \<Longrightarrow> blocks_ok c data il p bs \<Longrightarrow> end_pos p bs \<le> p + length (stream c bs)"
proof (induction bs arbitrary: il p)
  case Nil
  then show ?case by (simp add: stream_Nil)
next
  case (Cons b bs)
  show ?case
  proof (cases b)
    case (Literal xs)
    with Cons.prems have "blocks_ok c data True (p + length xs) bs" by simp
    from Cons.IH [OF Cons.prems(1) this] Literal show ?thesis
      by (simp add: stream_Cons)
  next
    case (Match n e)
    with Cons.prems have ok: "blocks_ok c data False (p + nat n) bs" "n \<le> 1" by simp_all
    have "1 \<le> length (match_block c n e)"
      by (simp add: match_block_def len_field_def)
    with Cons.IH [OF Cons.prems(1) ok(1)] Match ok(2) show ?thesis
      by (simp add: stream_Cons)
  qed
qed

lemma lz8s_overflow:
  assumes v: "check_options c" and m: "max_mlen c = 1"
    and big: "65536 < length data" and n: "length data \<le> 131072"
  shows "lz8s c data = Inl BufferOverflow"
proof -
  from n have t: "take 131072 data = data" by simp
  let ?bs = "enc_blocks c data (lzop_backfill c data) 0 False"
  have gt: "good_table c data (lzop_backfill c data)"
    by (rule lzop_backfill_good [OF v n])
  from enc_blocks_ok [OF v gt, of 0 False]
  have "blocks_ok c data False 0 ?bs" "end_pos 0 ?bs = length data" by simp_all
  with stream_length_ge [OF m, of data False 0 ?bs]
  have "length data \<le> length (stream c ?bs)" by simp
  with big show ?thesis
    unfolding lz8s_stream [OF v] t by (simp add: emit_def)
qed

text \<open>
  C1: decoding the encoder's output gives the input back, for every valid configuration
  and every input up to 128 KiB. The encoder breaks this for inputs whose encoding is
  longer than its 65536-byte output buffer, which \<open>add_byte\<close> fills without a bound
  check and which is only flushed at the end: with \<open>-m 1\<close> no match is longer than one
  byte, every input byte costs at least one output byte, and the 65537-byte input of
  zero bytes (well within the 128 KiB cap) makes the encoder write outside the buffer,
  so there is no output to decode. (Where the encoder does return a stream, the round
  trip holds: lemma \<open>roundtrip_when_encoded\<close>.)
\<close>

theorem roundtrip_output_buffer_overflow:
  "check_options (default_cfg\<lparr>max_mlen := 1\<rparr>) \<and>
   length (replicate 65537 (0 :: byte)) \<le> 128 * 1024 \<and>
   lz8s (default_cfg\<lparr>max_mlen := 1\<rparr>) (replicate 65537 0) = Inl BufferOverflow"
proof -
  have v: "check_options (default_cfg\<lparr>max_mlen := 1\<rparr>)"
    by (simp add: check_options_def default_cfg_def)
  have m: "max_mlen (default_cfg\<lparr>max_mlen := 1\<rparr>) = 1" by simp
  have big: "65536 < length (replicate 65537 (0 :: byte))" by simp
  have n: "length (replicate 65537 (0 :: byte)) \<le> 131072" by simp
  from lz8s_overflow [OF v m big n] v show ?thesis by simp
qed

text \<open>
  C8: for every non-empty input for which the encoder returns a stream, the stream is
  the concatenation of the wire forms of a non-empty sequence of blocks that begins
  with a literal block and then alternates strictly between literal and match blocks
  (so two data blocks of the same kind are separated by a zero-length block of the
  other kind); the blocks describe the input read (each literal block holds its next
  bytes, each match block repeats earlier bytes) up to its end; and the last block has
  a positive length, so nothing, and in particular no end marker, follows the last
  data block.
\<close>

theorem stream_alternates:
  assumes "check_options c" and "input \<noteq> []" and "lz8s c input = Inr out"
  shows "\<exists>bs. out = stream c bs \<and> bs \<noteq> [] \<and> is_literal (hd bs) \<and> alternates False bs \<and>
              blocks_ok c (fread (128 * 1024) input) False 0 bs \<and>
              end_pos 0 bs = length (fread (128 * 1024) input) \<and>
              0 < block_len (last bs)"
proof -
  from lz8s_blocks [OF assms(1,3)] obtain bs where bs: "out = stream c bs"
    "blocks_ok c (take 131072 input) False 0 bs" "alternates False bs"
    "end_pos 0 bs = length (take 131072 input)" "bs \<noteq> [] \<longrightarrow> 0 < block_len (last bs)"
    by blast
  from assms(2) have pos: "0 < length (take 131072 input)" by (cases input) simp_all
  have ne: "bs \<noteq> []"
  proof
    assume "bs = []"
    with bs(4) have "length (take 131072 input) = 0" by (simp del: length_take)
    with pos show False by linarith
  qed
  with bs(3) have "is_literal (hd bs)" by (cases bs) simp_all
  with bs ne show ?thesis by (auto simp add: fread_def)
qed

theorem stream_alternates_witness:
  "check_options default_cfg \<and> [0x41, 0x42, 0x41, 0x42, 0x41, 0x42, 0x41, 0x42] \<noteq> ([] :: byte list) \<and>
   lz8s default_cfg [0x41, 0x42, 0x41, 0x42, 0x41, 0x42, 0x41, 0x42] = Inr [2, 0x41, 0x42, 6, 1] \<and>
   (\<exists>bs. [2, 0x41, 0x42, 6, 1] = stream default_cfg bs \<and> bs \<noteq> [] \<and> is_literal (hd bs) \<and>
         alternates False bs \<and>
         blocks_ok default_cfg (fread (128 * 1024) [0x41, 0x42, 0x41, 0x42, 0x41, 0x42, 0x41, 0x42])
           False 0 bs \<and>
         end_pos 0 bs = length (fread (128 * 1024) [0x41, 0x42, 0x41, 0x42, 0x41, 0x42, 0x41, 0x42 :: byte]) \<and>
         0 < block_len (last bs))"
proof -
  have h1: "check_options default_cfg"
    by (simp add: check_options_def default_cfg_def)
  have h2: "[0x41, 0x42, 0x41, 0x42, 0x41, 0x42, 0x41, 0x42] \<noteq> ([] :: byte list)" by simp
  have h3: "lz8s default_cfg [0x41, 0x42, 0x41, 0x42, 0x41, 0x42, 0x41, 0x42]
              = Inr [2, 0x41, 0x42, 6, 1]"
    by (simp add: enc_eval cong: eval_cong)
  from stream_alternates [OF h1 h2 h3] h1 h2 h3 show ?thesis by blast
qed

section \<open>Truncated streams\<close>

lemma blocks_ok_append:
  "blocks_ok c data il p (bs @ cs) \<longleftrightarrow>
     blocks_ok c data il p bs \<and> blocks_ok c data (end_phase il bs) (end_pos p bs) cs"
proof (induction bs arbitrary: il p)
  case Nil
  then show ?case by simp
next
  case (Cons b bs)
  then show ?case by (cases b) auto
qed

lemma end_pos_append: "end_pos p (bs @ cs) = end_pos (end_pos p bs) cs"
  by (induction bs arbitrary: p) simp_all

lemma len_field_nonempty: "len_field mx x \<noteq> []"
  by (simp add: len_field_def)

lemma getchar_nil:
  "getchar \<lparr>stdin = [], stdout = out, stderr = err\<rparr> = (EOF, \<lparr>stdin = [], stdout = out, stderr = err\<rparr>)"
  by (simp add: getchar_def)

lemma decode_literal_truncated:
  assumes v: "valid_cfg c" and n: "length data < 2 ^ 32"
    and ok: "int (length xs) \<le> max_llen c" "p + length xs \<le> length data"
      "xs = take (length xs) (drop p data)" and ne: "xs \<noteq> []"
  shows "decode c buf p
           \<lparr>stdin = butlast (wire c (Literal xs)), stdout = take p data, stderr = err\<rparr>
         = (p + (length xs - 1),
            \<lparr>stdin = [], stdout = take (p + (length xs - 1)) data, stderr = err @ [ShortLiteral]\<rparr>)"
proof -
  note b = valid_cfg_bounds [OF v]
  have bl: "butlast xs = take (length xs - 1) (drop p data)"
  proof -
    have "butlast (take (length xs) (drop p data)) = take (length xs - 1) (drop p data)"
      by (rule butlast_take) (use ok(2) in simp)
    with ok(3) show ?thesis by simp
  qed
  have w: "butlast (wire c (Literal xs)) = len_field (max_llen c) (int (length xs)) @ butlast xs"
    using ne by (simp add: butlast_append)
  have g: "get_len (max_llen c)
             \<lparr>stdin = len_field (max_llen c) (int (length xs)) @ butlast xs,
              stdout = take p data, stderr = err\<rparr>
           = (int (length xs), \<lparr>stdin = butlast xs, stdout = take p data, stderr = err\<rparr>)"
    by (rule get_len_len_field) (use ok b in auto)
  have le: "p + (length xs - 1) \<le> length data" using ok(2) by simp
  have lt: "length xs - 1 < length xs" using ne by (cases xs) simp_all
  have cl: "copy_literal c (length xs) buf p
           \<lparr>stdin = butlast xs, stdout = take p data, stderr = err\<rparr>
         = Inl (p + (length xs - 1),
            \<lparr>stdin = [], stdout = take (p + (length xs - 1)) data, stderr = err @ [ShortLiteral]\<rparr>)"
    unfolding bl by (rule copy_literal_short [OF le n lt])
  show ?thesis
    unfolding w by (subst decode.simps) (simp add: g cl)
qed

lemma decode_match_truncated:
  assumes v: "valid_cfg c" and nz: "bits_moff c \<noteq> 0"
    and ok: "0 < m" "m \<le> max_mlen c"
  shows "decode_match c buf p
           \<lparr>stdin = butlast (wire c (Match m e)), stdout = out, stderr = err\<rparr>
         = (p, \<lparr>stdin = [], stdout = out, stderr = err @ [ShortOffset]\<rparr>)"
proof -
  note b = valid_cfg_bounds [OF v]
  from nz b have pos: "0 < bits_moff c" by simp
  have one: "offset_field c e \<noteq> []" using nz by (simp add: offset_field_def)
  have w: "butlast (wire c (Match m e)) = len_field (max_mlen c) m @ butlast (offset_field c e)"
    using ok(1) one by (simp add: match_block_def butlast_append)
  have g: "get_len (max_mlen c)
             \<lparr>stdin = len_field (max_mlen c) m @ butlast (offset_field c e),
              stdout = out, stderr = err\<rparr>
           = (m, \<lparr>stdin = butlast (offset_field c e), stdout = out, stderr = err\<rparr>)"
    by (rule get_len_len_field) (use ok b in auto)
  have ro: "read_offset c p \<lparr>stdin = butlast (offset_field c e), stdout = out, stderr = err\<rparr>
              = Inl (p, \<lparr>stdin = [], stdout = out, stderr = err @ [ShortOffset]\<rparr>)"
  proof (cases "bits_moff c \<le> 8")
    case True
    with pos show ?thesis
      by (simp add: read_offset_def offset_field_def getchar_nil eprint_def)
  next
    case False
    with pos show ?thesis
      by (simp add: read_offset_def offset_field_def getchar_nil getchar_cons eprint_def
          uint_not_EOF del: of_int_and_eq of_int_or_eq)
  qed
  show ?thesis
    unfolding w using ok(1) by (subst decode_match.simps) (simp add: g ro)
qed

lemma truncated_stream:
  assumes v: "valid_cfg c" and nz: "bits_moff c \<noteq> 0" and n: "length data < 2 ^ 32"
    and ok: "blocks_ok c data False 0 bs" and ne: "bs \<noteq> []" and last: "0 < block_len (last bs)"
    and e: "end_pos 0 bs = length data"
  shows "\<exists>k msg. decode c buf0 0 \<lparr>stdin = butlast (stream c bs), stdout = [], stderr = []\<rparr>
                   = (k, \<lparr>stdin = [], stdout = take k data, stderr = [msg]\<rparr>) \<and>
                 k < length data \<and> (msg = ShortLiteral \<or> msg = ShortOffset)"
proof -
  define bs0 where "bs0 = butlast bs"
  define b where "b = last bs"
  have split: "bs = bs0 @ [b]" using ne by (simp add: bs0_def b_def)
  define il where "il = end_phase False bs0"
  define p where "p = end_pos 0 bs0"
  from ok have ok0: "blocks_ok c data False 0 bs0" and okb: "blocks_ok c data il p [b]"
    unfolding split blocks_ok_append by (simp_all add: il_def p_def)
  have wne: "wire c b \<noteq> []" by (cases b) (simp_all add: len_field_nonempty match_block_def)
  have bl: "butlast (stream c bs) = stream c bs0 @ butlast (wire c b)"
    unfolding split using wne
    by (simp add: stream_append stream_Cons stream_Nil butlast_append)
  have ep: "end_pos p [b] = length data"
  proof -
    have "end_pos 0 (bs0 @ [b]) = end_pos (end_pos 0 bs0) [b]"
      by (rule end_pos_append)
    then show ?thesis using e by (simp add: split [symmetric] p_def)
  qed
  from decode_stream [OF v n ok0 ring_ok_0, of buf0 "butlast (wire c b)" "[]"]
  obtain buf' where d0:
    "decode_phase False c buf0 0
        \<lparr>stdin = stream c bs0 @ butlast (wire c b), stdout = take 0 data, stderr = []\<rparr>
     = decode_phase il c buf' p
        \<lparr>stdin = butlast (wire c b), stdout = take p data, stderr = []\<rparr>"
    by (auto simp add: il_def p_def)
  have lb: "0 < block_len b" using last by (simp add: b_def)
  show ?thesis
  proof (cases b)
    case (Literal xs)
    with okb lb have f: "\<not> il" "int (length xs) \<le> max_llen c" "p + length xs \<le> length data"
      "xs = take (length xs) (drop p data)" "xs \<noteq> []" by auto
    from ep Literal have pe: "p + length xs = length data" by simp
    from decode_literal_truncated [OF v n f(2,3,4,5), of buf' "[]"] d0 f(1) Literal
    have "decode c buf0 0 \<lparr>stdin = butlast (stream c bs), stdout = [], stderr = []\<rparr>
            = (p + (length xs - 1),
               \<lparr>stdin = [], stdout = take (p + (length xs - 1)) data, stderr = [ShortLiteral]\<rparr>)"
      by (simp add: bl decode_phase_def)
    moreover have "p + (length xs - 1) < length data" using pe f(5) by (cases xs) simp_all
    ultimately show ?thesis by blast
  next
    case (Match m x)
    with okb lb have f: "il" "0 < m" "m \<le> max_mlen c" by auto
    from ep Match f(2) have pe: "p < length data" by simp
    from decode_match_truncated [OF v nz f(2,3), of buf' p x "take p data" "[]"] d0 f(1) Match
    have "decode c buf0 0 \<lparr>stdin = butlast (stream c bs), stdout = [], stderr = []\<rparr>
            = (p, \<lparr>stdin = [], stdout = take p data, stderr = [ShortOffset]\<rparr>)"
      by (simp add: bl decode_phase_def)
    with pe show ?thesis by blast
  qed
qed

text \<open>
  C5, as stated: removing the last byte of any non-empty encoder output makes the
  decoder report "short file". In run-length mode (\<open>bits_moff = 0\<close>) the input "AAAA"
  is encoded as \<open>01 41 03\<close>, a literal and a match block that has no offset byte; without
  its last byte the stream \<open>01 41\<close> is complete again, and the decoder writes "A"
  and ends without any message.
\<close>

theorem truncation_counterexample:
  "lz8s (default_cfg\<lparr>bits_moff := 0\<rparr>) [0x41, 0x41, 0x41, 0x41] = Inr [0x01, 0x41, 0x03] \<and>
   lz8dec (default_cfg\<lparr>bits_moff := 0\<rparr>) (\<lambda>_. 0) (butlast [0x01, 0x41, 0x03])
     = (1, \<lparr>stdin = [], stdout = [0x41], stderr = []\<rparr>)"
proof
  show "lz8s (default_cfg\<lparr>bits_moff := 0\<rparr>) [0x41, 0x41, 0x41, 0x41] = Inr [0x01, 0x41, 0x03]"
    by (simp add: enc_eval cong: eval_cong)
  show "lz8dec (default_cfg\<lparr>bits_moff := 0\<rparr>) (\<lambda>_. 0) (butlast [0x01, 0x41, 0x03])
     = (1, \<lparr>stdin = [], stdout = [0x41], stderr = []\<rparr>)"
    by (simp add: dec_eval cong: eval_cong)
qed

text \<open>
  C5, amended: for every valid configuration that writes offset bytes (\<open>bits_moff\<close> at
  least 1) and every input of at most 128 KiB for which the encoder returns a non-empty
  stream, the decoder run on that stream without its last byte prints exactly one
  error, "short file reading literal" or "short file reading match offset", and what
  it has written (and counts in its return value) is a proper prefix of the input.
\<close>

theorem truncation_detected:
  assumes "valid_cfg c" and "bits_moff c \<noteq> 0" and "length data \<le> 128 * 1024"
    and "lz8s c data = Inr out" and "out \<noteq> []"
  shows "\<exists>k msg. lz8dec c buf0 (butlast out)
                   = (int k, \<lparr>stdin = [], stdout = take k data, stderr = [msg]\<rparr>) \<and>
                 k < length data \<and> (msg = ShortLiteral \<or> msg = ShortOffset)"
proof -
  from assms(3) have t: "take 131072 data = data" and n: "length data < 2 ^ 32" by simp_all
  from lz8s_blocks [OF valid_cfg_check [OF assms(1)] assms(4)] obtain bs where bs:
    "out = stream c bs" "blocks_ok c data False 0 bs" "end_pos 0 bs = length data"
    "bs \<noteq> [] \<longrightarrow> 0 < block_len (last bs)"
    unfolding t by blast
  from assms(5) bs(1) have ne: "bs \<noteq> []" by (auto simp add: stream_Nil)
  with bs(4) have last: "0 < block_len (last bs)" by simp
  from truncated_stream [OF assms(1,2) n bs(2) ne last bs(3), of buf0]
  obtain k msg where k:
    "decode c buf0 0 \<lparr>stdin = butlast (stream c bs), stdout = [], stderr = []\<rparr>
       = (k, \<lparr>stdin = [], stdout = take k data, stderr = [msg]\<rparr>)"
    "k < length data" "msg = ShortLiteral \<or> msg = ShortOffset" by blast
  have "as_int k = int k" using k(2) assms(3) by (simp add: as_int_def)
  with k show ?thesis by (auto simp add: lz8dec_def bs(1))
qed

theorem truncation_detected_witness:
  "valid_cfg default_cfg \<and> bits_moff default_cfg \<noteq> 0 \<and>
   length [0x41, 0x42, 0x41, 0x42, 0x41, 0x42, 0x41, 0x42 :: byte] \<le> 128 * 1024 \<and>
   lz8s default_cfg [0x41, 0x42, 0x41, 0x42, 0x41, 0x42, 0x41, 0x42] = Inr [2, 0x41, 0x42, 6, 1] \<and>
   [2, 0x41, 0x42, 6, 1] \<noteq> ([] :: byte list) \<and>
   (\<exists>k msg. lz8dec default_cfg (\<lambda>_. 0) (butlast [2, 0x41, 0x42, 6, 1])
               = (int k, \<lparr>stdin = [],
                           stdout = take k [0x41, 0x42, 0x41, 0x42, 0x41, 0x42, 0x41, 0x42],
                           stderr = [msg]\<rparr>) \<and>
             k < length [0x41, 0x42, 0x41, 0x42, 0x41, 0x42, 0x41, 0x42 :: byte] \<and>
             (msg = ShortLiteral \<or> msg = ShortOffset))"
proof -
  have h1: "valid_cfg default_cfg"
    by (simp add: valid_cfg_def check_options_def default_cfg_def)
  have h2: "bits_moff default_cfg \<noteq> 0" by (simp add: default_cfg_def)
  have h3: "length [0x41, 0x42, 0x41, 0x42, 0x41, 0x42, 0x41, 0x42 :: byte] \<le> 128 * 1024" by simp
  have h4: "lz8s default_cfg [0x41, 0x42, 0x41, 0x42, 0x41, 0x42, 0x41, 0x42]
              = Inr [2, 0x41, 0x42, 6, 1]"
    by (simp add: enc_eval cong: eval_cong)
  have h5: "[2, 0x41, 0x42, 6, 1] \<noteq> ([] :: byte list)" by simp
  from truncation_detected [OF h1 h2 h3 h4 h5, of "\<lambda>_. 0"] h1 h2 h3 h4 h5 show ?thesis by blast
qed

section \<open>The decoder on arbitrary streams\<close>













section \<open>The costs in the table\<close>

lemma moff_cost_cases:
  "moff_cost c x = INFINITE_COST \<or> moff_cost c x = 0 \<or> moff_cost c x = 8 \<or> moff_cost c x = 16"
  by (simp add: moff_cost_def)

lemma mlen_cost_cases:
  "mlen_cost c x = INFINITE_COST \<or> mlen_cost c x = 8 \<or> mlen_cost c x = 16"
  by (simp add: mlen_cost_def)

lemma zero_match_cost_dvd:
  assumes "check_options c"
  shows "8 dvd zero_match_cost c"
proof -
  note b = check_options_bounds [OF assms]
  have m: "mlen_cost c 0 = 8" using b by (simp add: mlen_cost_def)
  have "1 \<le> max_off c" using b by (simp add: max_off_eq)
  then have "moff_cost c 1 = 0 \<or> moff_cost c 1 = 8 \<or> moff_cost c 1 = 16"
    by (simp add: moff_cost_def)
  with m show ?thesis by (auto simp add: zero_match_cost_def)
qed

lemma llen_cost_loop_dvd:
  "check_options c \<Longrightarrow> 8 dvd bits \<Longrightarrow> 0 \<le> bits \<Longrightarrow>
     8 dvd snd (llen_cost_loop c l bits) \<and> 0 \<le> snd (llen_cost_loop c l bits)"
proof (induction c l bits rule: llen_cost_loop.induct)
  case (1 c l bits)
  show ?case
  proof (cases "l > max_llen c \<and> 0 < max_llen c")
    case True
    then have a: "llen_cost_loop c l bits =
        llen_cost_loop c (l - max_llen c) (bits + (8 + zero_match_cost c))"
      by (subst llen_cost_loop.simps) simp
    have d: "8 dvd bits + (8 + zero_match_cost c)"
      using "1.prems"(2) zero_match_cost_dvd [OF "1.prems"(1)] by (simp add: dvd_add)
    have n: "0 \<le> bits + (8 + zero_match_cost c)"
      using "1.prems"(3) zero_match_cost_range [OF "1.prems"(1)] by simp
    from "1.IH" [OF True "1.prems"(1) d n] show ?thesis unfolding a .
  next
    case False
    then have "llen_cost_loop c l bits = (l, bits)"
      by (subst llen_cost_loop.simps) auto
    with "1.prems" show ?thesis by simp
  qed
qed

lemma llen_cost_dvd:
  assumes "check_options c"
  shows "8 dvd llen_cost c l" and "0 \<le> llen_cost c l"
proof -
  from llen_cost_loop_dvd [OF assms, of 0 l]
  have a: "8 dvd snd (llen_cost_loop c l 0)" "0 \<le> snd (llen_cost_loop c l 0)" by simp_all
  show "8 dvd llen_cost c l"
    using a(1) by (cases "llen_cost_loop c l 0") (auto simp add: llen_cost_def dvd_add)
  show "0 \<le> llen_cost c l"
    using a(2) by (cases "llen_cost_loop c l 0") (auto simp add: llen_cost_def)
qed

lemma llen_cost_header:
  assumes "1 \<le> l" and "l \<le> max_llen c"
  shows "llen_cost c l = 8 * int (length (len_field (max_llen c) l))"
proof -
  have "llen_cost_loop c l 0 = (l, 0)"
    using assms by (subst llen_cost_loop.simps) simp
  with assms show ?thesis by (auto simp add: llen_cost_def len_field_def)
qed

lemma llen_cost_1: "check_options c \<Longrightarrow> llen_cost c 1 = 8"
  using llen_cost_header [of 1 c] check_options_bounds(3) [of c]
  by (simp add: len_field_def)


lemma INFINITE_COST_val: "INFINITE_COST = 8388607"
  by (simp add: INFINITE_COST_def)

lemma later_cell:
  assumes later: "\<forall>q. p < q \<and> q \<le> length data \<longrightarrow>
      cell_inv c data q (sp ! q) \<and> cost_ok c (length data) sp q (sp ! q)"
    and q: "p < q" "q \<le> length data" and v: "check_options c"
  shows "0 \<le> llen (sp ! q)" "int q + llen (sp ! q) \<le> int (length data)"
    "0 \<le> lbits (sp ! q)" "0 \<le> mbits (sp ! q)" "8 dvd lbits (sp ! q)"
    "mbits (sp ! q) < INFINITE_COST \<longrightarrow> 8 dvd mbits (sp ! q)"
    "lit_ok c (length data) sp q (sp ! q)"
proof -
  from later q have ci: "cell_inv c data q (sp ! q)"
    and co: "lit_ok c (length data) sp q (sp ! q)" "mat_ok c sp q (sp ! q)"
    by (simp_all add: cost_ok_def)
  from ci show l: "0 \<le> llen (sp ! q)" "int q + llen (sp ! q) \<le> int (length data)"
    by (simp_all add: cell_inv_def)
  from co(2) show m: "0 \<le> mbits (sp ! q)"
    "mbits (sp ! q) < INFINITE_COST \<longrightarrow> 8 dvd mbits (sp ! q)"
    by (simp_all add: mat_ok_def)
  from co(1) show "8 dvd lbits (sp ! q)" "lit_ok c (length data) sp q (sp ! q)"
    by (simp_all add: lit_ok_def)
  have t: "0 \<le> (if q + nat (llen (sp ! q)) = length data then 0
                 else mbits (sp ! (q + nat (llen (sp ! q)))))"
  proof (cases "q + nat (llen (sp ! q)) = length data")
    case True
    then show ?thesis by simp
  next
    case False
    with l q have "p < q + nat (llen (sp ! q)) \<and> q + nat (llen (sp ! q)) \<le> length data"
      by simp
    with later have "mat_ok c sp (q + nat (llen (sp ! q))) (sp ! (q + nat (llen (sp ! q))))"
      by (simp add: cost_ok_def)
    with False show ?thesis by (simp add: mat_ok_def)
  qed
  from co(1) have "8 * llen (sp ! q) + llen_cost c (llen (sp ! q))
       + (if q + nat (llen (sp ! q)) = length data then 0
          else mbits (sp ! (q + nat (llen (sp ! q))))) \<le> lbits (sp ! q)"
    by (simp add: lit_ok_def)
  with t l(1) llen_cost_dvd(2) [OF v, of "llen (sp ! q)"] show "0 \<le> lbits (sp ! q)"
    by linarith
qed

lemma backfill_lit_cost:
  assumes v: "check_options c"
    and later: "\<forall>q. p < q \<and> q \<le> length data \<longrightarrow>
      cell_inv c data q (sp ! q) \<and> cost_ok c (length data) sp q (sp ! q)"
  shows "1 \<le> i \<Longrightarrow> (lbits cur < INFINITE_COST \<longrightarrow> lit_ok c (length data) sp p cur) \<Longrightarrow>
     backfill_lit c sp (length data) p i (ml, cur) = (ml', cur') \<Longrightarrow>
     (lbits cur' < INFINITE_COST \<longrightarrow> lit_ok c (length data) sp p cur') \<and>
     lbits cur' \<le> lbits cur \<and> ml \<le> ml'"
proof (induction "6 - i" arbitrary: i ml cur rule: less_induct)
  case less
  show ?case
  proof (cases "i < 6 \<and> \<not> p + i > length data")
    case False
    then have "backfill_lit c sp (length data) p i (ml, cur) = (ml, cur)"
      by (subst backfill_lit.simps) auto
    with less.prems show ?thesis by auto
  next
    case True
    then have i6: "i < 6" and le: "p + i \<le> length data" by simp_all
    define nxt where "nxt = sp ! (p + i)"
    define ml1 where "ml1 = (if ml < llen nxt + int i then llen nxt + int i else ml)"
    define lb where "lb = lbits nxt + 8 * int i - llen_cost c (llen nxt) + llen_cost c (llen nxt + int i)"
    define cur1 where "cur1 = (if lb < lbits cur then cur\<lparr> lbits := lb, llen := llen nxt + int i \<rparr> else cur)"
    have step: "backfill_lit c sp (length data) p i (ml, cur)
                  = backfill_lit c sp (length data) p (i + 1) (ml1, cur1)"
      using i6 le
      by (subst backfill_lit.simps) (simp add: Let_def nxt_def ml1_def lb_def cur1_def)
    have pq: "p < p + i" using less.prems(1) by simp
    note n = later_cell [OF later pq le v, folded nxt_def]
    have d1: "8 dvd llen_cost c (llen nxt)" "8 dvd llen_cost c (llen nxt + int i)"
      by (rule llen_cost_dvd(1) [OF v])+
    have dl: "8 dvd lb"
      unfolding lb_def using n(5) d1 by presburger
    have e: "p + nat (llen nxt + int i) = p + i + nat (llen nxt)" using n(1) by simp
    from n(7) have "8 * llen nxt + llen_cost c (llen nxt)
       + (if p + i + nat (llen nxt) = length data then 0
          else mbits (sp ! (p + i + nat (llen nxt)))) \<le> lbits nxt"
      by (simp add: lit_ok_def)
    then have "8 * (llen nxt + int i) + llen_cost c (llen nxt + int i)
       + (if p + nat (llen nxt + int i) = length data then 0
          else mbits (sp ! (p + nat (llen nxt + int i)))) \<le> lb"
      unfolding e lb_def by simp
    with dl have new: "lit_ok c (length data) sp p (cur\<lparr> lbits := lb, llen := llen nxt + int i \<rparr>)"
      by (auto simp add: lit_ok_def split: if_splits)
    have a1: "lbits cur1 < INFINITE_COST \<longrightarrow> lit_ok c (length data) sp p cur1"
      using new less.prems(2) by (simp add: cur1_def)
    have a2: "lbits cur1 \<le> lbits cur" by (simp add: cur1_def)
    have a3: "ml \<le> ml1" by (simp add: ml1_def)
    have d: "6 - (i + 1) < 6 - i" using i6 by simp
    have i1: "1 \<le> i + 1" by simp
    from less.hyps [OF d i1 a1 less.prems(3) [unfolded step]] a2 a3
    show ?thesis by auto
  qed
qed

lemma backfill_litmatch_cost:
  assumes v: "check_options c"
    and later: "\<forall>q. p < q \<and> q \<le> length data \<longrightarrow>
      cell_inv c data q (sp ! q) \<and> cost_ok c (length data) sp q (sp ! q)"
  shows "1 \<le> i \<Longrightarrow> int p + ml \<le> int (length data) \<Longrightarrow>
     lbits cur < INFINITE_COST \<Longrightarrow> lit_ok c (length data) sp p cur \<Longrightarrow>
     lit_ok c (length data) sp p (backfill_litmatch c sp p ml i cur) \<and>
     lbits (backfill_litmatch c sp p ml i cur) \<le> lbits cur"
proof (induction "nat (ml + 1 - int i)" arbitrary: i cur rule: less_induct)
  case less
  show ?case
  proof (cases "int i \<le> ml - 1")
    case False
    then have "backfill_litmatch c sp p ml i cur = cur"
      by (subst backfill_litmatch.simps) simp
    with less.prems show ?thesis by simp
  next
    case True
    define nxt where "nxt = sp ! (p + i)"
    define mb where "mb = mbits nxt + 8 * int i + llen_cost c (int i)"
    define cur1 where "cur1 = (if mb < lbits cur then cur\<lparr> llen := int i, lbits := mb \<rparr> else cur)"
    have step: "backfill_litmatch c sp p ml i cur = backfill_litmatch c sp p ml (i + 1) cur1"
      using True
      by (subst backfill_litmatch.simps) (simp add: Let_def nxt_def mb_def cur1_def)
    have pq: "p < p + i" using less.prems(1) by simp
    have le: "p + i \<le> length data" using True less.prems(2) by simp
    note n = later_cell [OF later pq le v, folded nxt_def]
    note lc = llen_cost_dvd [OF v, of "int i"]
    have new: "lit_ok c (length data) sp p (cur\<lparr> llen := int i, lbits := mb \<rparr>)"
      if lt: "mb < lbits cur"
    proof -
      from lt less.prems(3) n(4) lc(2) have "mbits nxt < INFINITE_COST"
        by (simp add: mb_def)
      with n(6) have "8 dvd mbits nxt" by simp
      with lc(1) have "8 dvd mb" unfolding mb_def by presburger
      moreover have "8 * int i + llen_cost c (int i)
         + (if p + nat (int i) = length data then 0 else mbits (sp ! (p + nat (int i)))) \<le> mb"
        using n(4) by (auto simp add: mb_def nxt_def)
      ultimately show ?thesis by (auto simp add: lit_ok_def split: if_splits)
    qed
    have a1: "lit_ok c (length data) sp p cur1"
      using new less.prems(4) by (simp add: cur1_def)
    have a2: "lbits cur1 \<le> lbits cur" by (simp add: cur1_def)
    have a3: "lbits cur1 < INFINITE_COST" using a2 less.prems(3) by simp
    have d: "nat (ml + 1 - int (i + 1)) < nat (ml + 1 - int i)" using True by simp
    have i1: "1 \<le> i + 1" by simp
    from less.hyps [OF d i1 less.prems(2) a3 a1] a2 show ?thesis
      unfolding step by simp
  qed
qed

lemma backfill_match_cost:
  assumes v: "check_options c"
    and later: "\<forall>q. p < q \<and> q \<le> length data \<longrightarrow>
      cell_inv c data q (sp ! q) \<and> cost_ok c (length data) sp q (sp ! q)"
  shows "1 \<le> l \<Longrightarrow> int p + ml \<le> int (length data) \<Longrightarrow> mpos cur = mp \<Longrightarrow>
     mat_ok c sp p cur \<Longrightarrow>
     backfill_match c sp p mp ml l (bestm, cur) = (bestm', cur') \<Longrightarrow>
     mat_ok c sp p cur'"
proof (induction "nat (ml + 1 - int l)" arbitrary: l bestm cur rule: less_induct)
  case less
  show ?case
  proof (cases "int l \<le> ml")
    case False
    then have "backfill_match c sp p mp ml l (bestm, cur) = (bestm, cur)"
      by (subst backfill_match.simps) simp
    with less.prems show ?thesis by simp
  next
    case True
    define nxt where "nxt = sp ! (p + l)"
    define mb where "mb = mbits nxt + llen_cost c 1 + moff_cost c mp + mlen_cost c (int l)"
    define lb where "lb = lbits nxt + moff_cost c mp + mlen_cost c (int l)"
    define bestm1 where "bestm1 = (if lb \<le> bestm then lb else bestm)"
    define cur1 where "cur1 = (if lb \<le> bestm then cur\<lparr> mlen := int l, mbits := lb \<rparr> else cur)"
    define bestm2 where "bestm2 = (if mb \<le> bestm1 then mb else bestm1)"
    define cur2 where "cur2 = (if mb \<le> bestm1 then cur1\<lparr> mlen := int l, mbits := mb \<rparr> else cur1)"
    have step: "backfill_match c sp p mp ml l (bestm, cur)
                  = backfill_match c sp p mp ml (l + 1) (bestm2, cur2)"
      using True
      by (subst backfill_match.simps)
         (simp add: Let_def nxt_def mb_def lb_def bestm1_def cur1_def bestm2_def cur2_def)
    have pq: "p < p + l" using less.prems(1) by simp
    have le: "p + l \<le> length data" using True less.prems(2) by simp
    note n = later_cell [OF later pq le v, folded nxt_def]
    note l1 = llen_cost_1 [OF v]
    note oc = moff_cost_cases [of c mp]
    note mc = mlen_cost_cases [of c "int l"]
    have I: "(0::int) < INFINITE_COST" by (simp add: INFINITE_COST_val)
    have o0: "0 \<le> moff_cost c mp" using oc by (auto simp add: INFINITE_COST_val)
    have m0: "0 \<le> mlen_cost c (int l)" using mc by (auto simp add: INFINITE_COST_val)
    have od: "moff_cost c mp < INFINITE_COST \<Longrightarrow> 8 dvd moff_cost c mp" using oc by auto
    have md: "mlen_cost c (int l) < INFINITE_COST \<Longrightarrow> 8 dvd mlen_cost c (int l)"
      using mc by auto
    have A: "mat_ok c sp p (x\<lparr> mlen := int l, mbits := lb \<rparr>)" if "mpos x = mp" for x
    proof -
      have "0 \<le> lb" using n(3) o0 m0 by (simp add: lb_def)
      moreover have "8 dvd lb" if "lb < INFINITE_COST"
      proof -
        from that n(3) o0 m0 have "moff_cost c mp < INFINITE_COST"
          "mlen_cost c (int l) < INFINITE_COST" by (simp_all add: lb_def)
        with od md n(5) show ?thesis unfolding lb_def by (simp add: dvd_add)
      qed
      moreover have "moff_cost c mp + mlen_cost c (int l)
          + min (lbits nxt) (mbits nxt + llen_cost c 1) \<le> lb"
        by (simp add: lb_def)
      ultimately show ?thesis using that by (simp add: mat_ok_def nxt_def)
    qed
    have B: "mat_ok c sp p (x\<lparr> mlen := int l, mbits := mb \<rparr>)" if "mpos x = mp" for x
    proof -
      have "0 \<le> mb" using n(4) o0 m0 by (simp add: mb_def l1)
      moreover have "8 dvd mb" if "mb < INFINITE_COST"
      proof -
        from that n(4) o0 m0 have "moff_cost c mp < INFINITE_COST"
          "mlen_cost c (int l) < INFINITE_COST" "mbits nxt < INFINITE_COST"
          by (simp_all add: mb_def l1)
        with od md n(6) show ?thesis unfolding mb_def l1 by (simp add: dvd_add)
      qed
      moreover have "moff_cost c mp + mlen_cost c (int l)
          + min (lbits nxt) (mbits nxt + llen_cost c 1) \<le> mb"
        by (simp add: mb_def)
      ultimately show ?thesis using that by (simp add: mat_ok_def nxt_def)
    qed
    have p1: "mpos cur1 = mp" using less.prems(3) by (simp add: cur1_def)
    have m1: "mat_ok c sp p cur1"
      using A [OF less.prems(3)] less.prems(4) by (simp add: cur1_def)
    have p2: "mpos cur2 = mp" using p1 by (simp add: cur2_def)
    have m2: "mat_ok c sp p cur2"
      using B [OF p1] m1 by (simp add: cur2_def)
    have d: "nat (ml + 1 - int (l + 1)) < nat (ml + 1 - int l)" using True by simp
    have i1: "1 \<le> l + 1" by simp
    from less.hyps [OF d i1 less.prems(2) p2 m2 less.prems(5) [unfolded step]]
    show ?thesis .
  qed
qed

lemma backfill_match_best:
  "1 \<le> l \<Longrightarrow> mbits cur = bestm \<Longrightarrow>
     backfill_match c sp p mp ml l (bestm, cur) = (bestm', cur') \<Longrightarrow>
     mbits cur' = bestm' \<and> bestm' \<le> bestm \<and>
     (int l \<le> ml \<longrightarrow>
        bestm' \<le> lbits (sp ! (p + nat ml)) + moff_cost c mp + mlen_cost c ml)"
proof (induction "nat (ml + 1 - int l)" arbitrary: l bestm cur rule: less_induct)
  case less
  show ?case
  proof (cases "int l \<le> ml")
    case False
    then have "backfill_match c sp p mp ml l (bestm, cur) = (bestm, cur)"
      by (subst backfill_match.simps) simp
    with less.prems False show ?thesis by simp
  next
    case True
    define nxt where "nxt = sp ! (p + l)"
    define mb where "mb = mbits nxt + llen_cost c 1 + moff_cost c mp + mlen_cost c (int l)"
    define lb where "lb = lbits nxt + moff_cost c mp + mlen_cost c (int l)"
    define bestm1 where "bestm1 = (if lb \<le> bestm then lb else bestm)"
    define cur1 where "cur1 = (if lb \<le> bestm then cur\<lparr> mlen := int l, mbits := lb \<rparr> else cur)"
    define bestm2 where "bestm2 = (if mb \<le> bestm1 then mb else bestm1)"
    define cur2 where "cur2 = (if mb \<le> bestm1 then cur1\<lparr> mlen := int l, mbits := mb \<rparr> else cur1)"
    have step: "backfill_match c sp p mp ml l (bestm, cur)
                  = backfill_match c sp p mp ml (l + 1) (bestm2, cur2)"
      using True
      by (subst backfill_match.simps)
         (simp add: Let_def nxt_def mb_def lb_def bestm1_def cur1_def bestm2_def cur2_def)
    have e: "mbits cur2 = bestm2"
      using less.prems(2) by (simp add: cur2_def bestm2_def cur1_def bestm1_def)
    have b: "bestm2 \<le> bestm" "bestm2 \<le> lb" by (simp_all add: bestm2_def bestm1_def)
    have d: "nat (ml + 1 - int (l + 1)) < nat (ml + 1 - int l)" using True by simp
    have i1: "1 \<le> l + 1" by simp
    from less.hyps [OF d i1 e less.prems(3) [unfolded step]]
    have r: "mbits cur' = bestm'" "bestm' \<le> bestm2"
      "int (l + 1) \<le> ml \<longrightarrow>
         bestm' \<le> lbits (sp ! (p + nat ml)) + moff_cost c mp + mlen_cost c ml"
      by simp_all
    have "bestm' \<le> lbits (sp ! (p + nat ml)) + moff_cost c mp + mlen_cost c ml"
    proof (cases "int l = ml")
      case eq: True
      then have "nat ml = l" by simp
      with r(2) b(2) eq show ?thesis by (simp add: lb_def nxt_def)
    next
      case False
      with True r(3) show ?thesis by simp
    qed
    with r b show ?thesis by simp
  qed
qed

lemma backfill_lit_mono:
  "backfill_lit c sp n p i (ml, cur) = (ml', cur') \<Longrightarrow> lbits cur' \<le> lbits cur \<and> ml \<le> ml'"
proof (induction "6 - i" arbitrary: i ml cur rule: less_induct)
  case less
  show ?case
  proof (cases "i < 6 \<and> \<not> p + i > n")
    case False
    then have "backfill_lit c sp n p i (ml, cur) = (ml, cur)"
      by (subst backfill_lit.simps) auto
    with less.prems show ?thesis by auto
  next
    case True
    define nxt where "nxt = sp ! (p + i)"
    define ml1 where "ml1 = (if ml < llen nxt + int i then llen nxt + int i else ml)"
    define lb where "lb = lbits nxt + 8 * int i - llen_cost c (llen nxt) + llen_cost c (llen nxt + int i)"
    define cur1 where "cur1 = (if lb < lbits cur then cur\<lparr> lbits := lb, llen := llen nxt + int i \<rparr> else cur)"
    have step: "backfill_lit c sp n p i (ml, cur) = backfill_lit c sp n p (i + 1) (ml1, cur1)"
      using True
      by (subst backfill_lit.simps) (simp add: Let_def nxt_def ml1_def lb_def cur1_def)
    have a: "lbits cur1 \<le> lbits cur" "ml \<le> ml1" by (simp_all add: cur1_def ml1_def)
    have d: "6 - (i + 1) < 6 - i" using True by arith
    from less.hyps [OF d less.prems [unfolded step]] a show ?thesis by simp
  qed
qed

lemma backfill_litmatch_first:
  "2 \<le> ml \<Longrightarrow>
     lbits (backfill_litmatch c sp p ml 1 cur) \<le> mbits (sp ! (p + 1)) + 8 + llen_cost c 1"
proof -
  assume ml: "2 \<le> ml"
  define mb where "mb = mbits (sp ! (p + 1)) + 8 * int 1 + llen_cost c (int 1)"
  define cur1 where "cur1 = (if mb < lbits cur then cur\<lparr> llen := int 1, lbits := mb \<rparr> else cur)"
  have step: "backfill_litmatch c sp p ml 1 cur = backfill_litmatch c sp p ml (1 + 1) cur1"
    using ml by (subst backfill_litmatch.simps) (simp add: Let_def mb_def cur1_def)
  have mono: "lbits (backfill_litmatch c sp p ml i x) \<le> lbits x" for i x
  proof (induction "nat (ml + 1 - int i)" arbitrary: i x rule: less_induct)
    case less
    show ?case
    proof (cases "int i \<le> ml - 1")
      case False
      then show ?thesis by (subst backfill_litmatch.simps) simp
    next
      case True
      define y where "y = (if mbits (sp ! (p + i)) + 8 * int i + llen_cost c (int i) < lbits x
          then x\<lparr> llen := int i, lbits := mbits (sp ! (p + i)) + 8 * int i + llen_cost c (int i) \<rparr>
          else x)"
      have s: "backfill_litmatch c sp p ml i x = backfill_litmatch c sp p ml (i + 1) y"
        using True by (subst backfill_litmatch.simps) (simp add: Let_def y_def)
      have d: "nat (ml + 1 - int (i + 1)) < nat (ml + 1 - int i)" using True by simp
      have "lbits y \<le> lbits x" by (simp add: y_def)
      with less.hyps [OF d, of y] show ?thesis unfolding s by simp
    qed
  qed
  have "lbits cur1 \<le> mb" by (simp add: cur1_def)
  with mono [of "1 + 1" cur1] show ?thesis unfolding step by (simp add: mb_def)
qed

lemma cost_ok_update:
  assumes "k \<le> q" and "1 \<le> llen cell" and "mbits cell < INFINITE_COST \<longrightarrow> 1 \<le> mlen cell"
  shows "cost_ok c n (sp[k := x]) q cell = cost_ok c n sp q cell"
proof -
  have a: "sp[k := x] ! (q + nat (llen cell)) = sp ! (q + nat (llen cell))"
    using assms(1,2) by simp
  have b: "mbits cell < INFINITE_COST \<Longrightarrow>
      sp[k := x] ! (q + nat (mlen cell)) = sp ! (q + nat (mlen cell))"
    using assms(1,3) by simp
  show ?thesis
    unfolding cost_ok_def lit_ok_def mat_ok_def a using b by auto
qed

text \<open>
  One step of the backward pass: the new cell accounts for its costs, and its costs
  are at most those of three particular choices: one literal byte before the literal
  of the next position, one literal byte before the match of the next position, and
  the longest match found followed by a literal.
\<close>

lemma backfill_step_cost:
  assumes v: "check_options c" and n: "length data \<le> 131072" and lt: "p < length data"
    and later: "\<forall>q. p < q \<and> q \<le> length data \<longrightarrow>
      cell_inv c data q (sp ! q) \<and> cost_ok c (length data) sp q (sp ! q)"
  shows "cost_ok c (length data) sp p (backfill_step c data sp p)"
    and "lbits (backfill_step c data sp p) \<le>
           lbits (sp ! (p + 1)) + 8 - llen_cost c (llen (sp ! (p + 1)))
             + llen_cost c (llen (sp ! (p + 1)) + 1)"
    and "p + 1 < length data \<Longrightarrow>
           lbits (backfill_step c data sp p) \<le> mbits (sp ! (p + 1)) + 8 + llen_cost c 1"
    and "match c data p (length data) 0 = (ml2, mp) \<Longrightarrow> 1 \<le> ml2 \<Longrightarrow>
           mbits (backfill_step c data sp p) \<le>
             lbits (sp ! (p + nat ml2)) + moff_cost c mp + mlen_cost c ml2"
proof -
  note b = check_options_bounds [OF v]
  let ?B = "40 * (int (length data) - int p)"
  have B: "?B < INFINITE_COST" using n by (simp add: INFINITE_COST_def)
  from later have later': "\<forall>q. p < q \<and> q \<le> length data \<longrightarrow> cell_inv c data q (sp ! q)"
    by simp
  define cur0 where "cur0 = (sp ! p)\<lparr> lbits := INFINITE_COST, llen := 0 \<rparr>"
  obtain ml cur1 where r1: "backfill_lit c sp (length data) p 1 (0, cur0) = (ml, cur1)"
    by (cases "backfill_lit c sp (length data) p 1 (0, cur0)")
  define cur2 where "cur2 = backfill_litmatch c sp p ml 1 cur1"
  obtain m2 mq where r2: "match c data p (length data) 0 = (m2, mq)"
    by (cases "match c data p (length data) 0")
  define cur3 where "cur3 = cur2\<lparr> mbits := INFINITE_COST, mpos := mq \<rparr>"
  obtain bestm cur4 where
    r3': "backfill_match c sp p mq m2 (nat min_mlen) (INFINITE_COST, cur3) = (bestm, cur4)"
    by (cases "backfill_match c sp p mq m2 (nat min_mlen) (INFINITE_COST, cur3)")
  have nm: "nat min_mlen = 1" by (simp add: min_mlen_def)
  note r3 = r3' [unfolded nm]
  have res: "backfill_step c data sp p = cur4"
    by (simp add: backfill_step_def Let_def cur0_def [symmetric] r1 cur2_def [symmetric] r2
        cur3_def [symmetric] r3' del: One_nat_def)
  have "0 \<le> ml \<and> int p + ml \<le> int (length data) \<and>
     0 \<le> llen cur1 \<and> int p + llen cur1 \<le> int (length data) \<and>
     (lbits cur1 \<le> ?B \<longrightarrow> 1 \<le> llen cur1) \<and>
     ((2 \<le> (1::nat) \<or> p + 1 \<le> length data) \<longrightarrow> lbits cur1 \<le> ?B)"
  proof (rule backfill_lit_inv [OF v later' _ _ _ _ _ _ _ r1])
    show "lbits cur0 \<le> ?B \<longrightarrow> 1 \<le> llen cur0" using B by (simp add: cur0_def)
  qed (use lt in \<open>simp_all add: cur0_def\<close>)
  with lt have s1: "int p + ml \<le> int (length data)" "1 \<le> llen cur1"
    "int p + llen cur1 \<le> int (length data)" "lbits cur1 \<le> ?B" by simp_all
  have one: "(1::nat) \<le> 1" by simp
  have c0: "lbits cur0 < INFINITE_COST \<longrightarrow> lit_ok c (length data) sp p cur0"
    by (simp add: cur0_def)
  from backfill_lit_cost [OF v later one c0 r1] s1(4) B
  have k1: "lit_ok c (length data) sp p cur1" "lbits cur1 < INFINITE_COST" by simp_all
  from backfill_litmatch_cost [OF v later one s1(1) k1(2) k1(1)]
  have k2: "lit_ok c (length data) sp p cur2" "lbits cur2 \<le> lbits cur1"
    by (simp_all add: cur2_def)
  have m3: "mbits cur3 < INFINITE_COST \<longrightarrow> 1 \<le> mlen cur3 \<and> mlen cur3 \<le> m2"
    by (simp add: cur3_def)
  from backfill_match_inv [OF one m3 r3]
  have s4: "llen cur4 = llen cur2" "lbits cur4 = lbits cur2"
    by (simp_all add: cur3_def)
  have pm: "int p + m2 \<le> int (length data)"
  proof (cases "0 < m2")
    case True
    have ple: "p \<le> length data" using lt by simp
    from match_result [OF ple b(1) r2 True] show ?thesis by simp
  next
    case False
    with lt show ?thesis by simp
  qed
  have p3: "mpos cur3 = mq" by (simp add: cur3_def)
  have k3: "mat_ok c sp p cur3" by (simp add: mat_ok_def cur3_def INFINITE_COST_val)
  from backfill_match_cost [OF v later one pm p3 k3 r3]
  have k4: "mat_ok c sp p cur4" .
  from k2(1) have "lit_ok c (length data) sp p cur4" unfolding lit_ok_def s4 .
  with k4 show "cost_ok c (length data) sp p (backfill_step c data sp p)"
    unfolding res by (simp add: cost_ok_def)
  \<comment> \<open>one literal byte before the literal of the next position\<close>
  define nxt where "nxt = sp ! (p + 1)"
  have le1: "p + 1 \<le> length data" using lt by simp
  have pq: "p < p + 1" by simp
  note nx = later_cell [OF later pq le1 v, folded nxt_def]
  define lb where "lb = lbits nxt + 8 * int 1 - llen_cost c (llen nxt) + llen_cost c (llen nxt + int 1)"
  define cur1a where "cur1a = (if lb < lbits cur0 then cur0\<lparr> lbits := lb, llen := llen nxt + int 1 \<rparr> else cur0)"
  define ml1 where "ml1 = (if (0::int) < llen nxt + int 1 then llen nxt + int 1 else 0)"
  have st: "backfill_lit c sp (length data) p 1 (0, cur0)
              = backfill_lit c sp (length data) p (1 + 1) (ml1, cur1a)"
    using le1
    by (subst backfill_lit.simps) (simp add: Let_def nxt_def ml1_def lb_def cur1a_def)
  from r1 [unfolded st] backfill_lit_mono [of c sp "length data" p "1 + 1" ml1 cur1a ml cur1]
  have mo: "lbits cur1 \<le> lbits cur1a" "ml1 \<le> ml" by simp_all
  have "lbits cur1a \<le> lb" by (simp add: cur1a_def cur0_def)
  with mo(1) k2(2) s4(2) have "lbits cur4 \<le> lb" by simp
  then show "lbits (backfill_step c data sp p) \<le>
           lbits (sp ! (p + 1)) + 8 - llen_cost c (llen (sp ! (p + 1)))
             + llen_cost c (llen (sp ! (p + 1)) + 1)"
    unfolding res by (simp add: lb_def nxt_def)
  show "lbits (backfill_step c data sp p) \<le> mbits (sp ! (p + 1)) + 8 + llen_cost c 1"
    if "p + 1 < length data"
  proof -
    from later that have "cell_inv c data (p + 1) nxt" by (simp add: nxt_def)
    with that have "1 \<le> llen nxt" by (simp add: cell_inv_def)
    with mo(2) have "2 \<le> ml" by (simp add: ml1_def)
    from backfill_litmatch_first [OF this, of c sp p cur1] s4(2) show ?thesis
      unfolding res by (simp add: cur2_def)
  qed
  show "mbits (backfill_step c data sp p) \<le>
             lbits (sp ! (p + nat ml2)) + moff_cost c mp + mlen_cost c ml2"
    if "match c data p (length data) 0 = (ml2, mp)" "1 \<le> ml2"
  proof -
    from that(1) r2 have e: "m2 = ml2" "mq = mp" by simp_all
    have "mbits cur3 = INFINITE_COST" by (simp add: cur3_def)
    from backfill_match_best [OF one this r3] that(2) show ?thesis
      unfolding res e by simp
  qed
qed

lemma cost_ok_frame:
  assumes "k < q"
  shows "cost_ok c n (sp[k := x]) q cell = cost_ok c n sp q cell"
proof -
  have "sp[k := x] ! (q + j) = sp ! (q + j)" for j using assms by simp
  then show ?thesis unfolding cost_ok_def lit_ok_def mat_ok_def by simp
qed

text \<open>
  The backward loop establishes, cell by cell, any property of a cell that a step
  establishes from the same property of the later cells.
\<close>

lemma backfill_loop_pred:
  assumes step: "\<And>sp p. p < length data \<Longrightarrow> length sp = length data + 1 \<Longrightarrow>
      (\<forall>q. p < q \<and> q \<le> length data \<longrightarrow> P sp q) \<Longrightarrow>
      P (sp[p := backfill_step c data sp p]) p"
    and frame: "\<And>sp p q x. p < q \<Longrightarrow> P sp q \<Longrightarrow> P (sp[p := x]) q"
  shows "k \<le> length data \<Longrightarrow> length sp = length data + 1 \<Longrightarrow>
     \<forall>q. k \<le> q \<and> q \<le> length data \<longrightarrow> P sp q \<Longrightarrow>
     \<forall>q. q \<le> length data \<longrightarrow> P (backfill_loop c data k sp) q"
proof (induction k arbitrary: sp)
  case 0
  then show ?case by simp
next
  case (Suc k)
  let ?sp = "sp[k := backfill_step c data sp k]"
  have lt: "k < length data" using Suc.prems(1) by simp
  have later: "\<forall>q. k < q \<and> q \<le> length data \<longrightarrow> P sp q"
    using Suc.prems(3) by simp
  have new: "P ?sp k" by (rule step [OF lt Suc.prems(2) later])
  have inv: "\<forall>q. k \<le> q \<and> q \<le> length data \<longrightarrow> P ?sp q"
  proof (intro allI impI)
    fix q assume q: "k \<le> q \<and> q \<le> length data"
    show "P ?sp q"
    proof (cases "q = k")
      case True
      with new show ?thesis by simp
    next
      case False
      with q later have "k < q" "P sp q" by simp_all
      then show ?thesis by (rule frame)
    qed
  qed
  have "k \<le> length data" using lt by simp
  moreover have "length ?sp = length data + 1" using Suc.prems(2) by simp
  ultimately show ?case
    using Suc.IH [of ?sp] inv by simp
qed

lemma lzop_backfill_pred:
  assumes step: "\<And>sp p. p < length data \<Longrightarrow> length sp = length data + 1 \<Longrightarrow>
      (\<forall>q. p < q \<and> q \<le> length data \<longrightarrow> P sp q) \<Longrightarrow>
      P (sp[p := backfill_step c data sp p]) p"
    and frame: "\<And>sp p q x. p < q \<Longrightarrow> P sp q \<Longrightarrow> P (sp[p := x]) q"
    and last: "\<And>sp. length sp = length data + 1 \<Longrightarrow>
      sp ! length data = \<lparr> lbits = 0, llen = 0, mbits = INFINITE_COST, mlen = 0, mpos = 0 \<rparr> \<Longrightarrow>
      P sp (length data)"
    and ne: "data \<noteq> []"
  shows "\<forall>q. q \<le> length data \<longrightarrow> P (lzop_backfill c data) q"
proof -
  let ?last = "\<lparr> lbits = 0, llen = 0, mbits = INFINITE_COST, mlen = 0, mpos = 0 \<rparr>"
  let ?sp = "(replicate (length data + 1) zero_st)[length data := ?last]"
  have e: "lzop_backfill c data = backfill_loop c data (length data) ?sp"
    using ne by (simp add: lzop_backfill_def Let_def)
  have len: "length ?sp = length data + 1" by (simp del: replicate.simps)
  have l: "?sp ! length data = ?last"
    by (rule nth_list_update_eq) simp
  from last [OF len l]
  have init: "\<forall>q. length data \<le> q \<and> q \<le> length data \<longrightarrow> P ?sp q"
    by (metis order_antisym)
  show ?thesis
    unfolding e by (rule backfill_loop_pred [OF step frame _ len init]) simp_all
qed

text \<open>Every cell of the finished table accounts for its costs.\<close>

lemma lzop_backfill_cost:
  assumes v: "check_options c" and n: "length data \<le> 131072" and ne: "data \<noteq> []"
  shows "\<forall>q. q \<le> length data \<longrightarrow>
     cell_inv c data q (lzop_backfill c data ! q) \<and>
     cost_ok c (length data) (lzop_backfill c data) q (lzop_backfill c data ! q)"
proof (rule lzop_backfill_pred [where P = "\<lambda>sp q. cell_inv c data q (sp ! q) \<and>
     cost_ok c (length data) sp q (sp ! q)", OF _ _ _ ne])
  fix sp :: "lzop_st list" and p
  assume lt: "p < length data" and len: "length sp = length data + 1"
    and later: "\<forall>q. p < q \<and> q \<le> length data \<longrightarrow>
      cell_inv c data q (sp ! q) \<and> cost_ok c (length data) sp q (sp ! q)"
  let ?new = "backfill_step c data sp p"
  from later have later': "\<forall>q. p < q \<and> q \<le> length data \<longrightarrow> cell_inv c data q (sp ! q)"
    by simp
  have ci: "cell_inv c data p ?new" by (rule backfill_step_inv [OF v n lt later'])
  have co: "cost_ok c (length data) sp p ?new" by (rule backfill_step_cost(1) [OF v n lt later])
  from ci lt have l: "1 \<le> llen ?new" "mbits ?new < INFINITE_COST \<longrightarrow> 1 \<le> mlen ?new"
    by (simp_all add: cell_inv_def)
  have e: "sp[p := ?new] ! p = ?new" using lt len by simp
  have pp: "p \<le> p" by simp
  show "cell_inv c data p (sp[p := ?new] ! p) \<and>
     cost_ok c (length data) (sp[p := ?new]) p (sp[p := ?new] ! p)"
    unfolding e cost_ok_update [OF pp l] using ci co by simp
next
  fix sp :: "lzop_st list" and p q x
  assume "p < q" and "cell_inv c data q (sp ! q) \<and> cost_ok c (length data) sp q (sp ! q)"
  then show "cell_inv c data q (sp[p := x] ! q) \<and>
     cost_ok c (length data) (sp[p := x]) q (sp[p := x] ! q)"
    by (simp add: cost_ok_frame)
next
  fix sp :: "lzop_st list"
  assume "length sp = length data + 1"
    and l: "sp ! length data = \<lparr> lbits = 0, llen = 0, mbits = INFINITE_COST, mlen = 0, mpos = 0 \<rparr>"
  have "llen_cost c 0 = 0" by (simp add: llen_cost_def)
  then show "cell_inv c data (length data) (sp ! length data) \<and>
     cost_ok c (length data) sp (length data) (sp ! length data)"
    unfolding l by (simp add: cell_inv_def cost_ok_def lit_ok_def mat_ok_def INFINITE_COST_val)
qed

section \<open>The length of the stream and the costs in the table\<close>

lemma wire_literal_cost:
  assumes "1 \<le> l" and "l \<le> max_llen c" and "p + nat l \<le> length data"
  shows "8 * int (length (wire c (Literal (take (nat l) (drop p data)))))
           = llen_cost c l + 8 * l"
proof -
  have "length (take (nat l) (drop p data)) = nat l" using assms(3) by simp
  then show ?thesis
    using assms(1) by (simp add: llen_cost_header [OF assms(1,2)])
qed

lemma wire_match_cost:
  assumes "check_options c" and "1 \<le> ml" and "ml \<le> max_mlen c"
    and "1 \<le> mp" and "mp \<le> max_off c"
  shows "8 * int (length (wire c (Match ml e))) = mlen_cost c ml + moff_cost c mp"
  using assms
  by (auto simp add: match_block_def len_field_def offset_field_def mlen_cost_def moff_cost_def)

lemma wire_zero_match_cost:
  assumes "check_options c"
  shows "8 * int (length (wire c (Match 0 0))) = zero_match_cost c"
proof -
  note b = check_options_bounds [OF assms]
  have "1 \<le> max_off c" using b by (simp add: max_off_eq)
  with b show ?thesis
    by (auto simp add: match_block_def len_field_def offset_field_def mlen_cost_def
        moff_cost_def zero_match_cost_def)
qed

text \<open>
  What the emitter writes from a position on costs no more than the table says: with
  the costs of \<open>cost_ok\<close>, and when no literal length in the table exceeds \<open>max_llen\<close>,
  the stream written from \<open>p\<close> on is at most as long as the cheaper of the literal
  cost and the match cost of the cell at \<open>p\<close>, the zero-length block counted in.
\<close>

lemma enc_blocks_cost:
  assumes v: "check_options c" and n: "length data \<le> 131072"
    and tab: "\<forall>q. q \<le> length data \<longrightarrow>
      cell_inv c data q (sp ! q) \<and> cost_ok c (length data) sp q (sp ! q)"
    and ll: "\<forall>q < length data. llen (sp ! q) \<le> max_llen c"
  shows "p < length data \<Longrightarrow>
     8 * int (length (stream c (enc_blocks c data sp p False)))
       \<le> min (lbits (sp ! p)) (mbits (sp ! p) + 8) \<and>
     8 * int (length (stream c (enc_blocks c data sp p True)))
       \<le> min (lbits (sp ! p) + zero_match_cost c) (mbits (sp ! p))"
proof (induction "length data - p" arbitrary: p rule: less_induct)
  case less
  note lt = less.prems
  let ?W = "\<lambda>q il. 8 * int (length (stream c (enc_blocks c data sp q il)))"
  define cur where "cur = sp ! p"
  from tab lt have ci: "cell_inv c data p cur" and lo: "lit_ok c (length data) sp p cur"
    and mo: "mat_ok c sp p cur"
    by (simp_all add: cur_def cost_ok_def)
  from tab have later: "\<forall>q. p < q \<and> q \<le> length data \<longrightarrow>
      cell_inv c data q (sp ! q) \<and> cost_ok c (length data) sp q (sp ! q)"
    by simp
  note z = zero_match_cost_range [OF v]
  from ci lt ll have L: "1 \<le> llen cur" "int p + llen cur \<le> int (length data)"
    "llen cur \<le> max_llen c" "lbits cur \<le> 40 * (int (length data) - int p)"
    by (simp_all add: cell_inv_def cur_def)
  have fin: "lbits cur + zero_match_cost c < INFINITE_COST"
    using L(4) z(2) n by (simp add: INFINITE_COST_val)
  define q where "q = p + nat (llen cur)"
  have q: "p < q" "q \<le> length data" using L by (simp_all add: q_def)
  have len: "(if llen cur > max_llen c then max_llen c else llen cur) = llen cur"
    using L(3) by simp
  have mx: "max 1 (nat (llen cur)) = nat (llen cur)" using L(1) by simp
  \<comment> \<open>the literal at \<open>p\<close> and what follows it\<close>
  have tl: "?W q True \<le> (if q = length data then 0 else mbits (sp ! q))"
  proof (cases "q = length data")
    case True
    then show ?thesis by (simp add: enc_blocks_end stream_Nil)
  next
    case False
    with q have ql: "q < length data" by simp
    have "length data - q < length data - p" using q lt by simp
    from less.hyps [OF this ql] False show ?thesis by simp
  qed
  have lw: "8 * int (length (wire c (Literal (take (nat (llen cur)) (drop p data)))))
      = llen_cost c (llen cur) + 8 * llen cur"
    by (rule wire_literal_cost [OF L(1) L(3) q(2) [unfolded q_def]])
  from lo have "8 * llen cur + llen_cost c (llen cur)
       + (if q = length data then 0 else mbits (sp ! q)) \<le> lbits cur"
    unfolding lit_ok_def q_def by (rule conjunct2)
  with tl lw have LP:
    "8 * int (length (wire c (Literal (take (nat (llen cur)) (drop p data))))) + ?W q True
       \<le> lbits cur"
    by simp
  have d8: "8 dvd lbits cur" using lo by (simp add: lit_ok_def)
  \<comment> \<open>the match at \<open>p\<close> and what follows it\<close>
  define r where "r = p + nat (mlen cur)"
  have MP: "8 * int (length (wire c (Match (mlen cur) (enc_offset c p (mpos cur))))) + ?W r False
       \<le> mbits cur \<and> 8 dvd mbits cur \<and> max 1 (nat (mlen cur)) = nat (mlen cur)"
    if mf: "mbits cur < INFINITE_COST"
  proof -
    from ci mf have M: "1 \<le> mlen cur" "mlen cur \<le> max_mlen c"
      "int p + mlen cur \<le> int (length data)" "1 \<le> mpos cur" "mpos cur \<le> max_off c"
      by (simp_all add: cell_inv_def)
    have r: "p < r" "r \<le> length data" using M by (simp_all add: r_def)
    note nx = later_cell [OF later r v]
    have tr: "?W r False \<le> min (lbits (sp ! r)) (mbits (sp ! r) + llen_cost c 1)"
    proof (cases "r = length data")
      case True
      then have "?W r False = 0" by (simp add: enc_blocks_end stream_Nil)
      with nx(3,4) show ?thesis by (simp add: llen_cost_1 [OF v])
    next
      case False
      with r have rl: "r < length data" by simp
      have "length data - r < length data - p" using r lt by simp
      from less.hyps [OF this rl] show ?thesis by (simp add: llen_cost_1 [OF v])
    qed
    from mo mf have k: "8 dvd mbits cur"
      "moff_cost c (mpos cur) + mlen_cost c (mlen cur)
          + min (lbits (sp ! r)) (mbits (sp ! r) + llen_cost c 1) \<le> mbits cur"
      by (simp_all add: mat_ok_def r_def)
    note w = wire_match_cost [OF v M(1,2,4,5), of "enc_offset c p (mpos cur)"]
    from tr w k(2)
    have "8 * int (length (wire c (Match (mlen cur) (enc_offset c p (mpos cur))))) + ?W r False
       \<le> mbits cur"
      by linarith
    with k(1) M(1) show ?thesis by simp
  qed
  \<comment> \<open>arriving after a match\<close>
  have F: "?W p False \<le> min (lbits cur) (mbits cur + 8)"
  proof (cases "lbits cur \<le> mbits cur")
    case True
    then have c: "lbits (sp ! p) + (if False then zero_match_cost c else 0) \<le> mbits (sp ! p)"
      by (simp add: cur_def)
    have "?W p False
        = 8 * int (length (wire c (Literal (take (nat (llen cur)) (drop p data))))) + ?W q True"
      unfolding enc_blocks_literal [OF lt c] cur_def [symmetric] len mx q_def
      by (simp add: stream_Cons)
    with LP True show ?thesis by simp
  next
    case False
    then have c: "\<not> lbits (sp ! p) + (if False then zero_match_cost c else 0) \<le> mbits (sp ! p)"
      by (simp add: cur_def)
    from False fin z have mf: "mbits cur < INFINITE_COST" by simp
    note m = MP [OF mf]
    have "?W p False
        = 8 + (8 * int (length (wire c (Match (mlen cur) (enc_offset c p (mpos cur)))))
               + ?W r False)"
      unfolding enc_blocks_match [OF lt c] cur_def [symmetric] r_def
      using m by (simp add: stream_Cons len_field_def)
    with m have a: "?W p False \<le> mbits cur + 8" by simp
    from False d8 m have "mbits cur + 8 \<le> lbits cur" by presburger
    with a show ?thesis by simp
  qed
  \<comment> \<open>arriving after a literal\<close>
  have T: "?W p True \<le> min (lbits cur + zero_match_cost c) (mbits cur)"
  proof (cases "lbits cur + zero_match_cost c \<le> mbits cur")
    case True
    then have c: "lbits (sp ! p) + (if True then zero_match_cost c else 0) \<le> mbits (sp ! p)"
      by (simp add: cur_def)
    have "?W p True
        = zero_match_cost c
          + (8 * int (length (wire c (Literal (take (nat (llen cur)) (drop p data)))))
             + ?W q True)"
      unfolding enc_blocks_literal [OF lt c] cur_def [symmetric] len mx q_def
      using wire_zero_match_cost [OF v] by (simp add: stream_Cons)
    with LP True show ?thesis by simp
  next
    case False
    then have c: "\<not> lbits (sp ! p) + (if True then zero_match_cost c else 0) \<le> mbits (sp ! p)"
      by (simp add: cur_def)
    from False fin have mf: "mbits cur < INFINITE_COST" by simp
    note m = MP [OF mf]
    have "?W p True
        = 8 * int (length (wire c (Match (mlen cur) (enc_offset c p (mpos cur)))))
               + ?W r False"
      unfolding enc_blocks_match [OF lt c] cur_def [symmetric] r_def
      using m by (simp add: stream_Cons)
    with m False show ?thesis by simp
  qed
  from F T show ?case unfolding cur_def by simp
qed

section \<open>An input that repeats one byte\<close>

lemma match_constant:
  assumes v: "check_options c" and p: "1 \<le> p" "p < length data"
    and const: "\<forall>i < length data. data ! i = x"
    and r: "match c data p (length data) 0 = (ml, mp)"
  shows "ml = min (max_mlen c) (int (length data) - int p)" "1 \<le> mp" "mp \<le> max_off c"
proof -
  note b = check_options_bounds [OF v]
  let ?cap = "match_cap c (length data) p"
  have cap: "- max (- max_mlen c) (int p - int (length data)) = ?cap"
    by (simp add: match_cap_def min_def max_def)
  have c1: "1 \<le> ?cap" using p b(1) by (simp add: match_cap_def)
  then have nn: "0 \<le> ?cap" by simp
  from r have m: "match_loop data p ?cap (window_start c p) 0 0 = (ml, mp)"
    by (simp add: match_def Let_def cap window_start_def)
  note s = match_loop_spec [OF nn m]
  have "1 \<le> max_off c" using b by (simp add: max_off_eq)
  with p(1) have w: "window_start c p \<le> p - 1" by (simp add: window_start_def)
  define g where "g = get_mlen data p (p - 1) ?cap 0"
  from get_mlen_capped [OF nn, of data p "p - 1"]
  have cp: "0 \<le> g" "g \<le> ?cap" "g < ?cap \<longrightarrow> data ! (p + nat g) \<noteq> data ! (p - 1 + nat g)"
    by (simp_all add: capped_prefix_def g_def)
  have "g = ?cap"
  proof (rule ccontr)
    assume "g \<noteq> ?cap"
    with cp have lt: "g < ?cap" by simp
    then have "int p + g < int (length data)" by (simp add: match_cap_def)
    with cp(1) have "p + nat g < length data" "p - 1 + nat g < length data" by simp_all
    with const have "data ! (p + nat g) = data ! (p - 1 + nat g)" by simp
    with cp(3) lt show False by simp
  qed
  moreover from s w p(1) have "g \<le> ml" by (simp add: g_def)
  ultimately have ge: "?cap \<le> ml" by simp
  with c1 have pos: "0 < ml" by simp
  with s obtain j where "get_mlen data p j ?cap 0 = ml" by auto
  with get_mlen_capped [OF nn, of data p j] have "ml \<le> ?cap"
    by (simp add: capped_prefix_def)
  with ge show "ml = min (max_mlen c) (int (length data) - int p)"
    unfolding match_cap_def by linarith
  have ple: "p \<le> length data" using p by simp
  from match_result [OF ple b(1) r pos] show "1 \<le> mp" "mp \<le> max_off c" by simp_all
qed

lemma cost_bound_frame: "p < q \<Longrightarrow> cost_bound n (sp[p := x]) q = cost_bound n sp q"
  by (simp add: cost_bound_def)

lemma backfill_step_bound:
  assumes v: "check_options c" and m: "max_mlen c = 32895"
    and n: "length data \<le> 131072" and lt: "p < length data"
    and const: "\<forall>i < length data. data ! i = x"
    and later: "\<forall>q. p < q \<and> q \<le> length data \<longrightarrow>
      cell_inv c data q (sp ! q) \<and> cost_ok c (length data) sp q (sp ! q) \<and>
      cost_bound (length data) sp q"
  shows "32896 * lbits (backfill_step c data sp p)
           \<le> 32896 * 48 + 48 * (int (length data) - int p)"
    and "1 \<le> p \<Longrightarrow> 32896 * mbits (backfill_step c data sp p)
           \<le> 32896 * 32 + 48 * (int (length data) - int p + 1)"
proof -
  from later have later': "\<forall>q. p < q \<and> q \<le> length data \<longrightarrow>
      cell_inv c data q (sp ! q) \<and> cost_ok c (length data) sp q (sp ! q)"
    by simp
  note st = backfill_step_cost [OF v n lt later']
  have cb: "cost_bound (length data) sp q" if "p < q" "q \<le> length data" for q
    using later that by blast
  note z = zero_match_cost_range [OF v]
  let ?new = "backfill_step c data sp p"
  show "32896 * lbits ?new \<le> 32896 * 48 + 48 * (int (length data) - int p)"
  proof (cases "p + 1 = length data")
    case True
    with cb [of "p + 1"] later' have cb: "lbits (sp ! (p + 1)) \<le> 0"
      and ci: "cell_inv c data (p + 1) (sp ! (p + 1))"
      by (simp_all add: cost_bound_def)
    from ci have "0 \<le> llen (sp ! (p + 1))" by (simp add: cell_inv_def)
    from llen_cost_step [OF v this] z(2)
    have "llen_cost c (llen (sp ! (p + 1)) + 1) - llen_cost c (llen (sp ! (p + 1))) \<le> 32"
      by simp
    with st(2) cb have "lbits ?new \<le> 40" by simp
    with lt show ?thesis by simp
  next
    case False
    with lt have l2: "p + 1 < length data" by simp
    with cb [of "p + 1"] have "32896 * mbits (sp ! (p + 1))
        \<le> 32896 * 32 + 48 * (int (length data) - int (p + 1) + 1)"
      by (simp add: cost_bound_def)
    with st(3) [OF l2] show ?thesis by (simp add: llen_cost_1 [OF v])
  qed
  show "32896 * mbits ?new \<le> 32896 * 32 + 48 * (int (length data) - int p + 1)"
    if p1: "1 \<le> p"
  proof -
    obtain ml2 mp where r: "match c data p (length data) 0 = (ml2, mp)"
      by (cases "match c data p (length data) 0")
    note mc = match_constant [OF v p1 lt const r]
    have ml2: "ml2 = min 32895 (int (length data) - int p)" using mc(1) m by simp
    then have ml1: "1 \<le> ml2" using lt by simp
    have "moff_cost c mp \<le> 16" using mc(2,3) by (simp add: moff_cost_def)
    moreover have "mlen_cost c ml2 \<le> 16" using ml2 m by (simp add: mlen_cost_def)
    ultimately have u: "mbits ?new \<le> lbits (sp ! (p + nat ml2)) + 32"
      using st(4) [OF r ml1] by simp
    show ?thesis
    proof (cases "int (length data) - int p \<le> 32895")
      case True
      with ml2 lt have e: "p + nat ml2 = length data" by simp
      with cb [of "p + nat ml2"] ml1 have "lbits (sp ! (p + nat ml2)) \<le> 0"
        by (simp add: cost_bound_def)
      with u have "mbits ?new \<le> 32" by simp
      with lt show ?thesis by simp
    next
      case False
      with ml2 have e: "nat ml2 = 32895" by simp
      from False have q: "p < p + 32895 \<and> p + 32895 \<le> length data" by simp
      with cb [of "p + 32895"] have "32896 * lbits (sp ! (p + 32895))
          \<le> 32896 * 48 + 48 * (int (length data) - int (p + 32895))"
        by (simp add: cost_bound_def)
      with u show ?thesis unfolding e by simp
    qed
  qed
qed

lemma lzop_backfill_constant:
  assumes v: "check_options c" and m: "max_mlen c = 32895"
    and n: "length data \<le> 131072" and ne: "data \<noteq> []"
    and const: "\<forall>i < length data. data ! i = x"
  shows "\<forall>q. q \<le> length data \<longrightarrow>
     cell_inv c data q (lzop_backfill c data ! q) \<and>
     cost_ok c (length data) (lzop_backfill c data) q (lzop_backfill c data ! q) \<and>
     cost_bound (length data) (lzop_backfill c data) q"
proof (rule lzop_backfill_pred [where P = "\<lambda>sp q. cell_inv c data q (sp ! q) \<and>
     cost_ok c (length data) sp q (sp ! q) \<and> cost_bound (length data) sp q", OF _ _ _ ne])
  fix sp :: "lzop_st list" and p
  assume lt: "p < length data" and len: "length sp = length data + 1"
    and later: "\<forall>q. p < q \<and> q \<le> length data \<longrightarrow>
      cell_inv c data q (sp ! q) \<and> cost_ok c (length data) sp q (sp ! q) \<and>
      cost_bound (length data) sp q"
  let ?new = "backfill_step c data sp p"
  from later have later': "\<forall>q. p < q \<and> q \<le> length data \<longrightarrow> cell_inv c data q (sp ! q)"
    and later'': "\<forall>q. p < q \<and> q \<le> length data \<longrightarrow>
      cell_inv c data q (sp ! q) \<and> cost_ok c (length data) sp q (sp ! q)"
    by simp_all
  have ci: "cell_inv c data p ?new" by (rule backfill_step_inv [OF v n lt later'])
  have co: "cost_ok c (length data) sp p ?new"
    by (rule backfill_step_cost(1) [OF v n lt later''])
  note bd = backfill_step_bound [OF v m n lt const later]
  from ci lt have l: "1 \<le> llen ?new" "mbits ?new < INFINITE_COST \<longrightarrow> 1 \<le> mlen ?new"
    by (simp_all add: cell_inv_def)
  have e: "sp[p := ?new] ! p = ?new" using lt len by simp
  have pp: "p \<le> p" by simp
  have "cost_bound (length data) (sp[p := ?new]) p"
    unfolding cost_bound_def e using bd lt by simp
  then show "cell_inv c data p (sp[p := ?new] ! p) \<and>
     cost_ok c (length data) (sp[p := ?new]) p (sp[p := ?new] ! p) \<and>
     cost_bound (length data) (sp[p := ?new]) p"
    unfolding e cost_ok_update [OF pp l] using ci co by simp
next
  fix sp :: "lzop_st list" and p q x
  assume "p < q" and "cell_inv c data q (sp ! q) \<and> cost_ok c (length data) sp q (sp ! q) \<and>
      cost_bound (length data) sp q"
  then show "cell_inv c data q (sp[p := x] ! q) \<and>
     cost_ok c (length data) (sp[p := x]) q (sp[p := x] ! q) \<and>
     cost_bound (length data) (sp[p := x]) q"
    by (simp add: cost_ok_frame cost_bound_frame)
next
  fix sp :: "lzop_st list"
  assume "length sp = length data + 1"
    and l: "sp ! length data = \<lparr> lbits = 0, llen = 0, mbits = INFINITE_COST, mlen = 0, mpos = 0 \<rparr>"
  have "llen_cost c 0 = 0" by (simp add: llen_cost_def)
  then show "cell_inv c data (length data) (sp ! length data) \<and>
     cost_ok c (length data) sp (length data) (sp ! length data) \<and>
     cost_bound (length data) sp (length data)"
    unfolding cost_bound_def l
    by (simp add: cell_inv_def cost_ok_def lit_ok_def mat_ok_def INFINITE_COST_val)
qed

text \<open>
  With \<open>max_mlen = 32895\<close>, the encoder returns a stream of less than 30 bytes for
  every input of at most 128 KiB that repeats one byte.
\<close>

lemma constant_input_encoded:
  assumes v: "check_options c" and m: "max_mlen c = 32895" and l: "30 \<le> max_llen c"
    and n: "length data \<le> 131072" and ne: "data \<noteq> []"
    and const: "\<forall>i < length data. data ! i = x"
  shows "\<exists>out. lz8s c data = Inr out \<and> length out < 30"
proof -
  let ?sp = "lzop_backfill c data"
  note t = lzop_backfill_constant [OF v m n ne const]
  from t have tab: "\<forall>q. q \<le> length data \<longrightarrow>
      cell_inv c data q (?sp ! q) \<and> cost_ok c (length data) ?sp q (?sp ! q)"
    by simp
  have bd: "32896 * lbits (?sp ! q) \<le> 32896 * 48 + 48 * 131072" if "q \<le> length data" for q
  proof -
    from t that have "32896 * lbits (?sp ! q) \<le> 32896 * 48 + 48 * (int (length data) - int q)"
      by (simp add: cost_bound_def)
    with n show ?thesis by simp
  qed
  have ll: "\<forall>q < length data. llen (?sp ! q) \<le> max_llen c"
  proof (intro allI impI)
    fix q assume q: "q < length data"
    define r where "r = q + nat (llen (?sp ! q))"
    from tab q have ci: "cell_inv c data q (?sp ! q)"
      and lo: "lit_ok c (length data) ?sp q (?sp ! q)"
      by (simp_all add: cost_ok_def)
    from ci have "0 \<le> llen (?sp ! q)" "int q + llen (?sp ! q) \<le> int (length data)"
      by (simp_all add: cell_inv_def)
    then have r: "r \<le> length data" unfolding r_def by linarith
    from tab r have "mat_ok c ?sp r (?sp ! r)" by (simp add: cost_ok_def)
    then have "0 \<le> mbits (?sp ! r)" by (simp add: mat_ok_def)
    then have t0: "0 \<le> (if r = length data then 0 else mbits (?sp ! r))" by simp
    from lo have "8 * llen (?sp ! q) + llen_cost c (llen (?sp ! q))
       + (if r = length data then 0 else mbits (?sp ! r)) \<le> lbits (?sp ! q)"
      unfolding lit_ok_def r_def by (rule conjunct2)
    with t0 llen_cost_dvd(2) [OF v, of "llen (?sp ! q)"]
    have "8 * llen (?sp ! q) \<le> lbits (?sp ! q)" by linarith
    with bd [of q] q have "llen (?sp ! q) < 30" by simp
    with l show "llen (?sp ! q) \<le> max_llen c" by simp
  qed
  have p0: "0 < length data" using ne by simp
  from enc_blocks_cost [OF v n tab ll p0]
  have "8 * int (length (stream c (enc_blocks c data ?sp 0 False))) \<le> lbits (?sp ! 0)"
    by simp
  with bd [of 0] have s: "length (stream c (enc_blocks c data ?sp 0 False)) < 30" by simp
  have "take 131072 data = data" using n by simp
  with lz8s_stream [OF v, of data] s
  have "lz8s c data = Inr (stream c (enc_blocks c data ?sp 0 False))"
    by (simp add: emit_def)
  with s show ?thesis by simp
qed

text \<open>
  C6: the encoder is to treat an input beyond its 128 KiB allocation as a fatal error
  and not process a part of it. \<open>main\<close> reads with one \<open>fread\<close> of at most 131072
  bytes, under the comment "Read all data", and never looks whether input remains.
  Run with \<open>-m 32895\<close> on the 131073 bytes made of 131072 zero bytes and a final 01,
  it reports no error and returns a stream, and that stream is the encoding of the
  first 131072 bytes: the decoder writes 131072 zero bytes from it, returns 131072 and
  reports no error. The last byte of the input is lost without notice.
\<close>

theorem oversized_input_partially_processed:
  "128 * 1024 < length (replicate 131072 (0 :: byte) @ [1]) \<and>
   check_options (default_cfg\<lparr>max_mlen := 32895\<rparr>) \<and>
   lz8s (default_cfg\<lparr>max_mlen := 32895\<rparr>) (replicate 131072 0 @ [1])
     = lz8s (default_cfg\<lparr>max_mlen := 32895\<rparr>) (replicate 131072 0) \<and>
   (case lz8s (default_cfg\<lparr>max_mlen := 32895\<rparr>) (replicate 131072 0 @ [1]) of
      Inl e \<Rightarrow> False
    | Inr out \<Rightarrow>
        lz8dec (default_cfg\<lparr>max_mlen := 32895\<rparr>) (\<lambda>_. 0) out
          = (131072, \<lparr>stdin = [], stdout = replicate 131072 0, stderr = []\<rparr>))"
proof -
  let ?c = "default_cfg\<lparr>max_mlen := 32895\<rparr>"
  let ?d = "replicate 131072 (0 :: byte)"
  have v: "check_options ?c" by (simp add: check_options_def default_cfg_def)
  have vc: "valid_cfg ?c" using v by (simp add: valid_cfg_def default_cfg_def)
  have m: "max_mlen ?c = 32895" by simp
  have l: "30 \<le> max_llen ?c" by (simp add: default_cfg_def)
  have n: "length ?d \<le> 131072" by simp
  have ne: "?d \<noteq> []" by (simp del: replicate.simps)
  have const: "\<forall>i < length ?d. ?d ! i = 0" by simp
  from constant_input_encoded [OF v m l n ne const]
  obtain out where out: "lz8s ?c ?d = Inr out" by blast
  have t: "take 131072 (?d @ [1]) = ?d" by simp
  have e: "lz8s ?c (?d @ [1]) = lz8s ?c ?d"
    unfolding lz8s_stream [OF v] t by simp
  from roundtrip_when_encoded [OF vc n out, of "\<lambda>_. 0"]
  have "lz8dec ?c (\<lambda>_. 0) out = (131072, \<lparr>stdin = [], stdout = ?d, stderr = []\<rparr>)"
    by simp
  with e out v show ?thesis by simp
qed

end
